theory Spec2Isabelle
  imports Main "HOL-Library.AList" "HOL-Library.Sublist"
begin

section \<open>JavaScript values\<close>

text \<open>
  The chart wrapper of \<^verbatim>\<open>packages/charts/src/baseUtils/chart/index.ts\<close> works on
  untyped configuration and data objects. They are modelled as trees:
  a record is the list of its own enumerable properties in insertion order, an array
  is the list of its elements. Numbers are the integers (fractions, NaN and the
  infinities are left out), functions are not values of the tree, and property lookup
  is lookup of own properties: keys that name inherited members (\<^verbatim>\<open>constructor\<close>,
  \<^verbatim>\<open>toString\<close>, the array and string methods) are outside the model. The engine
  lists keys that are array indices before the other keys of a record; the lists here
  keep the order of insertion throughout, which no function below depends on (each key
  is treated on its own), so that two results are to be compared as maps from keys to
  values, as \<open>isEqual\<close> does.
\<close>

datatype jsval =
    JUndefined
  | JNull
  | JBool bool
  | JNum int
  | JStr string
  | JArr "jsval list"
  | JObj "(string \<times> jsval) list"

text \<open>What a call can throw: the TypeError of the language, or a value thrown by a callback.\<close>

datatype exn = TypeError | Thrown jsval

text \<open>Truthiness, as \<^verbatim>\<open>&&\<close>, \<^verbatim>\<open>||\<close> and \<^verbatim>\<open>if\<close> test it.\<close>

fun truthy :: "jsval \<Rightarrow> bool" where
  "truthy JUndefined = False"
| "truthy JNull = False"
| "truthy (JBool b) = b"
| "truthy (JNum n) = (n \<noteq> 0)"
| "truthy (JStr s) = (s \<noteq> [])"
| "truthy (JArr xs) = True"
| "truthy (JObj kvs) = True"

text \<open>\<^verbatim>\<open>typeof v === 'object'\<close>: records, arrays and null.\<close>

fun typeof_object :: "jsval \<Rightarrow> bool" where
  "typeof_object JNull = True"
| "typeof_object (JArr xs) = True"
| "typeof_object (JObj kvs) = True"
| "typeof_object v = False"

text \<open>\<^verbatim>\<open>Array.isArray(v)\<close>.\<close>

fun isArray :: "jsval \<Rightarrow> bool" where
  "isArray (JArr xs) = True"
| "isArray v = False"

text \<open>The property key of an array index: its decimal numeral.\<close>

definition digit_char :: "nat \<Rightarrow> char" where
  "digit_char d = ''0123456789'' ! d"

fun index_key :: "nat \<Rightarrow> string" where
  "index_key n =
     (if n < 10 then [digit_char n] else index_key (n div 10) @ [digit_char (n mod 10)])"

declare index_key.simps [simp del]

definition indexed :: "'v list \<Rightarrow> (string \<times> 'v) list" where
  "indexed xs = zip (map index_key [0..<length xs]) xs"

text \<open>
  The own enumerable properties that \<^verbatim>\<open>Object.assign\<close> and object spread copy from
  a source: a record's entries, an array's elements under their indices, a string's
  characters under their indices (the source is boxed); nothing for null, undefined,
  numbers and booleans.
\<close>

fun own_props :: "jsval \<Rightarrow> (string \<times> jsval) list" where
  "own_props (JObj kvs) = kvs"
| "own_props (JArr xs) = indexed xs"
| "own_props (JStr s) = indexed (map (\<lambda>c. JStr [c]) s)"
| "own_props v = []"

text \<open>\<^verbatim>\<open>obj[key] = v\<close> on a record: an existing key keeps its place, a new one is appended.\<close>

definition set_prop :: "(string \<times> 'v) list \<Rightarrow> string \<Rightarrow> 'v \<Rightarrow> (string \<times> 'v) list" where
  "set_prop obj key v = AList.update key v obj"

text \<open>\<^verbatim>\<open>Object.assign(obj, source)\<close>, given the properties of the source.\<close>

definition assign :: "(string \<times> 'v) list \<Rightarrow> (string \<times> 'v) list \<Rightarrow> (string \<times> 'v) list" where
  "assign obj props = fold (\<lambda>(k, v) m. set_prop m k v) props obj"

text \<open>
  \<^verbatim>\<open>v[key]\<close>: a TypeError on null and undefined, the own property or undefined
  otherwise; arrays and strings also have their \<^verbatim>\<open>length\<close>.
\<close>

definition lookup :: "(string \<times> jsval) list \<Rightarrow> string \<Rightarrow> jsval" where
  "lookup kvs key = (case map_of kvs key of None \<Rightarrow> JUndefined | Some v \<Rightarrow> v)"

fun get_prop :: "jsval \<Rightarrow> string \<Rightarrow> exn + jsval" where
  "get_prop JUndefined key = Inl TypeError"
| "get_prop JNull key = Inl TypeError"
| "get_prop (JObj kvs) key = Inr (lookup kvs key)"
| "get_prop (JArr xs) key =
     Inr (if key = ''length'' then JNum (int (length xs)) else lookup (indexed xs) key)"
| "get_prop (JStr s) key =
     Inr (if key = ''length'' then JNum (int (length s))
          else lookup (indexed (map (\<lambda>c. JStr [c]) s)) key)"
| "get_prop v key = Inr JUndefined"

section \<open>mergeConfig and formatMergeConfig\<close>

lemma size_entry_less:
  "(k, v) \<in> set kvs \<Longrightarrow> size v < size (JObj kvs)"
  by (induction kvs) auto

lemma size_element_less:
  "v \<in> set xs \<Longrightarrow> size v < size (JArr xs)"
  by (induction xs) auto

lemma lookup_cases:
  "lookup kvs key = JUndefined \<or> (key, lookup kvs key) \<in> set kvs"
  by (auto simp: lookup_def dest: map_of_SomeD split: option.splits)

lemma get_prop_record_smaller:
  assumes "get_prop t key = Inr tv" and "typeof_object tv" and "truthy tv"
  shows "size tv < size t"
proof (cases t)
  case (JObj kvs)
  with assms lookup_cases [of kvs key] show ?thesis
    by (auto dest: size_entry_less)
next
  case (JArr xs)
  with assms lookup_cases [of "indexed xs" key] show ?thesis
    by (auto simp: indexed_def dest!: set_zip_rightD dest: size_element_less split: if_splits)
next
  case (JStr s)
  with assms lookup_cases [of "indexed (map (\<lambda>c. JStr [c]) s)" key] show ?thesis
    by (auto simp: indexed_def dest!: set_zip_rightD split: if_splits)
qed (use assms in auto)

text \<open>
  \<^verbatim>\<open>mergeConfig\<close> (lines 26 to 40). \<open>modifiedObj\<close> is the fresh record that
  \<^verbatim>\<open>Object.assign({}, originConfig, targetConfig)\<close> builds;
  \<open>forEach_key\<close> is the loop \<^verbatim>\<open>Object.keys(modifiedObj).forEach(key => ...)\<close>, which
  reads \<^verbatim>\<open>originConfig[key]\<close>, then (only if that is truthy) \<^verbatim>\<open>targetConfig[key]\<close>,
  and overwrites the key of \<open>modifiedObj\<close> with the recursive merge when the target's
  value is a truthy non-array object.
\<close>

function mergeConfig :: "jsval \<Rightarrow> jsval \<Rightarrow> exn + jsval"
  and forEach_key :: "jsval \<Rightarrow> jsval \<Rightarrow> string list \<Rightarrow> (string \<times> jsval) list \<Rightarrow> exn + jsval"
where
  "mergeConfig originConfig targetConfig =
     (let modifiedObj = assign (assign [] (own_props originConfig)) (own_props targetConfig)
      in forEach_key originConfig targetConfig (map fst modifiedObj) modifiedObj)"
| "forEach_key originConfig targetConfig [] modifiedObj = Inr (JObj modifiedObj)"
| "forEach_key originConfig targetConfig (key # keys) modifiedObj =
     (case get_prop originConfig key of
        Inl e \<Rightarrow> Inl e
      | Inr ov \<Rightarrow>
          if \<not> truthy ov then forEach_key originConfig targetConfig keys modifiedObj
          else
            (case get_prop targetConfig key of
               Inl e \<Rightarrow> Inl e
             | Inr tv \<Rightarrow>
                 if truthy tv \<and> typeof_object tv \<and> \<not> isArray tv
                 then
                   (case mergeConfig ov tv of
                      Inl e \<Rightarrow> Inl e
                    | Inr merged \<Rightarrow>
                        forEach_key originConfig targetConfig keys
                          (set_prop modifiedObj key merged))
                 else forEach_key originConfig targetConfig keys modifiedObj))"
  by pat_completeness auto

termination
proof (relation "inv_image (less_than <*lex*> less_than <*lex*> less_than)
    (\<lambda>x. case x of
       Inl (originConfig, targetConfig) \<Rightarrow> (size targetConfig, Suc 0, 0)
     | Inr (originConfig, targetConfig, keys, modifiedObj) \<Rightarrow> (size targetConfig, 0, length keys))",
    goal_cases)
  case 1
  show ?case by (intro wf_inv_image wf_lex_prod wf_less_than)
next
  case (2 originConfig targetConfig x)
  show ?case by simp
next
  case (3 originConfig targetConfig key keys modifiedObj ov)
  show ?case by simp
next
  case (4 originConfig targetConfig key keys modifiedObj ov tv)
  then show ?case by (simp add: get_prop_record_smaller)
next
  case (5 originConfig targetConfig key keys modifiedObj ov tv merged)
  show ?case by simp
next
  case (6 originConfig targetConfig key keys modifiedObj ov tv)
  show ?case by simp
qed

declare mergeConfig.simps [simp del]

text \<open>
  \<^verbatim>\<open>formatMergeConfig\<close> (lines 49 to 62). A configuration formatter is a function that
  returns a configuration or throws; \<open>None\<close> is the omitted argument.
\<close>

type_synonym formatter = "jsval \<Rightarrow> exn + jsval"

definition formatMergeConfig :: "jsval \<Rightarrow> jsval \<Rightarrow> formatter option \<Rightarrow> exn + jsval" where
  "formatMergeConfig originConfig targetConfig formatConfig =
     (case mergeConfig originConfig targetConfig of
        Inl e \<Rightarrow> Inl e
      | Inr mergedConfig \<Rightarrow>
          (case formatConfig of
             None \<Rightarrow> Inr mergedConfig
           | Some f \<Rightarrow> f mergedConfig))"

section \<open>Deep equality\<close>

text \<open>
  Modelled from the spec: \<^verbatim>\<open>isEqual\<close> is imported from \<^verbatim>\<open>lodash-es\<close>, whose source
  is not in the repository. It is the deep equality the spec describes: recursive over
  records, arrays and primitives, and not affected by the insertion order of keys. Two
  records are equal when they have the same number of keys and every key of the first
  is a key of the second with an equal value.
\<close>


fun isEqual :: "jsval \<Rightarrow> jsval \<Rightarrow> bool" where
  "isEqual (JArr xs) (JArr ys) = (length xs = length ys \<and> list_all2 isEqual xs ys)"
| "isEqual (JObj kvs) (JObj kvs') =
     (length kvs = length kvs' \<and>
      list_all (\<lambda>(k, v). case map_of kvs' k of None \<Rightarrow> False | Some v' \<Rightarrow> isEqual v v') kvs)"
| "isEqual v v' = (v = v')"

lemma isEqual_JArr_left:
  "isEqual (JArr xs) b \<longleftrightarrow> (\<exists>ys. b = JArr ys \<and> length xs = length ys \<and> list_all2 isEqual xs ys)"
  by (cases b) auto

lemma isEqual_JObj_left:
  "isEqual (JObj kvs) b \<longleftrightarrow>
     (\<exists>kvs'. b = JObj kvs' \<and> length kvs = length kvs' \<and>
        (\<forall>(k, v) \<in> set kvs. \<exists>v'. map_of kvs' k = Some v' \<and> isEqual v v'))"
  by (cases b) (auto simp: list_all_iff split: option.splits)

lemma isEqual_trans:
  "isEqual a b \<Longrightarrow> isEqual b c \<Longrightarrow> isEqual a c"
proof (induction a arbitrary: b c)
  case (JArr xs)
  from JArr.prems(1) obtain ys where b: "b = JArr ys" and ab: "list_all2 isEqual xs ys"
    by (auto simp: isEqual_JArr_left)
  from JArr.prems(2) b obtain zs where c: "c = JArr zs" and bc: "list_all2 isEqual ys zs"
    by (auto simp: isEqual_JArr_left)
  have "list_all2 isEqual xs zs"
    unfolding list_all2_conv_all_nth
  proof (intro conjI allI impI)
    show "length xs = length zs"
      using ab bc by (simp add: list_all2_lengthD)
  next
    fix i assume i: "i < length xs"
    have "xs ! i \<in> set xs" using i by simp
    moreover have "isEqual (xs ! i) (ys ! i)" using ab i by (simp add: list_all2_conv_all_nth)
    moreover have "isEqual (ys ! i) (zs ! i)" using ab bc i by (simp add: list_all2_conv_all_nth)
    ultimately show "isEqual (xs ! i) (zs ! i)" by (rule JArr.IH)
  qed
  with ab bc c show ?case by (simp add: list_all2_lengthD)
next
  case (JObj kvs)
  from JObj.prems(1) obtain kvs' where b: "b = JObj kvs'" and len1: "length kvs = length kvs'"
    and ab: "\<forall>(k, v) \<in> set kvs. \<exists>v'. map_of kvs' k = Some v' \<and> isEqual v v'"
    by (auto simp: isEqual_JObj_left)
  from JObj.prems(2) b obtain kvs'' where c: "c = JObj kvs''" and len2: "length kvs' = length kvs''"
    and bc: "\<forall>(k, v) \<in> set kvs'. \<exists>v'. map_of kvs'' k = Some v' \<and> isEqual v v'"
    by (auto simp: isEqual_JObj_left)
  have "\<exists>v''. map_of kvs'' k = Some v'' \<and> isEqual v v''" if kv: "(k, v) \<in> set kvs" for k v
  proof -
    from ab kv obtain v' where v': "map_of kvs' k = Some v'" "isEqual v v'" by auto
    then have "(k, v') \<in> set kvs'" by (auto dest: map_of_SomeD)
    with bc obtain v'' where v'': "map_of kvs'' k = Some v''" "isEqual v' v''" by auto
    have "v \<in> Basic_BNFs.snds (k, v)" by simp
    from JObj.IH [OF kv this v'(2) v''(2)] v''(1) show ?thesis by blast
  qed
  with c len1 len2 show ?case by (auto simp: isEqual_JObj_left)
qed auto

section \<open>SingleChartHOC\<close>

text \<open>
  A mount target (\<^verbatim>\<open>HTMLElement\<close>) and a chart instance are objects compared by
  reference: each is modelled by its address.
\<close>

type_synonym element = nat
type_synonym plot = nat

text \<open>
  The argument object of \<^verbatim>\<open>render\<close> and of \<^verbatim>\<open>getDom\<close>. An omitted \<^verbatim>\<open>config\<close> is
  \<open>JUndefined\<close>, an omitted \<^verbatim>\<open>formatConfig\<close> is \<open>None\<close>. (The field \<^verbatim>\<open>dom\<close> is
  named \<open>dom_node\<close> here, \<open>dom\<close> being the domain of a map in HOL.)
\<close>

record request =
  dom_node :: element
  data :: jsval
  config :: jsval
  formatConfig :: "formatter option"

text \<open>
  The injected functions and the two methods of a chart instance are code outside
  the class. Each is a function of its arguments and of the state \<open>'w\<close> of everything
  outside the registry (the charts on the screen, the application's stores); it
  returns normally or throws, and leaves a new outside state. They do not call
  \<^verbatim>\<open>render\<close> of the same object again while it runs.
\<close>

record 'w env =
  getDom :: "request \<Rightarrow> 'w \<Rightarrow> (exn + plot) \<times> 'w"
  stateManagerFunc :: "(plot \<Rightarrow> jsval \<Rightarrow> jsval \<Rightarrow> 'w \<Rightarrow> (exn + unit) \<times> 'w) option"
  getOriginConfig :: "(jsval \<Rightarrow> jsval \<Rightarrow> formatter option \<Rightarrow> 'w \<Rightarrow> (exn + jsval) \<times> 'w) option"
  updateConfig :: "plot \<Rightarrow> jsval \<Rightarrow> 'w \<Rightarrow> (exn + unit) \<times> 'w"
  plot_render :: "plot \<Rightarrow> 'w \<Rightarrow> (exn + unit) \<times> 'w"

text \<open>The calls that \<^verbatim>\<open>render\<close> makes to the outside, in the order it makes them.\<close>

datatype call =
    GetDom request
  | GetOriginConfig jsval jsval "formatter option"
  | UpdateConfig plot jsval
  | PlotRender plot
  | StateManagerFunc plot jsval jsval

text \<open>
  The three private arrays of the class, the outside state, and the log of the calls
  made so far (a ghost field: the code keeps no such log).
\<close>

record 'w state =
  dataArr :: "jsval list"
  chartPlotArr :: "plot list"
  domArr :: "element list"
  world :: 'w
  calls :: "call list"

text \<open>The object after its constructor has run.\<close>

definition initial :: "'w \<Rightarrow> 'w state" where
  "initial w = \<lparr>dataArr = [], chartPlotArr = [], domArr = [], world = w, calls = []\<rparr>"

text \<open>\<^verbatim>\<open>Array.prototype.findIndex\<close>; \<open>None\<close> is the result -1.\<close>

fun findIndex :: "('a \<Rightarrow> bool) \<Rightarrow> 'a list \<Rightarrow> nat option" where
  "findIndex P [] = None"
| "findIndex P (x # xs) = (if P x then Some 0 else map_option Suc (findIndex P xs))"

text \<open>Sequencing of two steps: an exception of the first ends the computation.\<close>

definition and_then ::
  "('s \<Rightarrow> (exn + 'a) \<times> 's) \<Rightarrow> ('a \<Rightarrow> 's \<Rightarrow> (exn + 'b) \<times> 's) \<Rightarrow> 's \<Rightarrow> (exn + 'b) \<times> 's" where
  "and_then m f s = (case m s of (Inl e, s') \<Rightarrow> (Inl e, s') | (Inr x, s') \<Rightarrow> f x s')"

text \<open>A call to the outside: it is logged, and the outside state becomes what it left.\<close>

definition outside :: "call \<Rightarrow> ('w \<Rightarrow> (exn + 'a) \<times> 'w) \<Rightarrow> 'w state \<Rightarrow> (exn + 'a) \<times> 'w state" where
  "outside c f s = (case f (world s) of (res, w) \<Rightarrow> (res, s\<lparr>world := w, calls := calls s @ [c]\<rparr>))"

text \<open>A pure expression that may throw.\<close>

definition pure_step :: "exn + 'a \<Rightarrow> 's \<Rightarrow> (exn + 'a) \<times> 's" where
  "pure_step res s = (res, s)"

text \<open>The object literal \<^verbatim>\<open>{ data, ...merged }\<close> passed to \<^verbatim>\<open>updateConfig\<close>.\<close>

definition with_data :: "jsval \<Rightarrow> jsval \<Rightarrow> jsval" where
  "with_data d merged = JObj (assign [(''data'', d)] (own_props merged))"

text \<open>
  The update branch of \<^verbatim>\<open>render\<close> (lines 135 to 150), for the entry at index \<open>idx\<close>.
\<close>

definition update_entry :: "'w env \<Rightarrow> request \<Rightarrow> nat \<Rightarrow> 'w state \<Rightarrow> (exn + plot) \<times> 'w state" where
  "update_entry env r idx s =
     (let s1 = s\<lparr>dataArr := (dataArr s)[idx := data r]\<rparr>;
          plot = chartPlotArr s ! idx
      in and_then
           (case getOriginConfig env of
              Some f \<Rightarrow>
                outside (GetOriginConfig (data r) (config r) (formatConfig r))
                  (f (data r) (config r) (formatConfig r))
            | None \<Rightarrow> pure_step (Inr (JObj [])))
           (\<lambda>originConfig.
              and_then
                (pure_step (formatMergeConfig originConfig
                   (if truthy (config r) then config r else JObj []) (formatConfig r)))
                (\<lambda>merged.
                   and_then
                     (outside (UpdateConfig plot (with_data (data r) merged))
                        (updateConfig env plot (with_data (data r) merged)))
                     (\<lambda>_.
                        and_then
                          (outside (PlotRender plot) (plot_render env plot))
                          (\<lambda>_.
                             and_then
                               (case stateManagerFunc env of
                                  Some f \<Rightarrow>
                                    outside (StateManagerFunc plot (data r) (config r))
                                      (f plot (data r) (config r))
                                | None \<Rightarrow> pure_step (Inr ()))
                               (\<lambda>_. pure_step (Inr plot))))))
           s1)"

text \<open>
  \<^verbatim>\<open>SingleChartHOC.render\<close> (lines 114 to 153). The index found in \<open>domArr\<close> is used
  in \<open>dataArr\<close> and \<open>chartPlotArr\<close>: the three arrays have the same length in every
  state the object reaches (\<open>registry_ok\<close> below).
\<close>

definition render :: "'w env \<Rightarrow> request \<Rightarrow> 'w state \<Rightarrow> (exn + plot) \<times> 'w state" where
  "render env r s =
     (case findIndex (\<lambda>item. item = dom_node r) (domArr s) of
        None \<Rightarrow>
          and_then (outside (GetDom r) (getDom env r))
            (\<lambda>plot s'.
               (Inr plot,
                s'\<lparr>chartPlotArr := chartPlotArr s' @ [plot],
                   dataArr := dataArr s' @ [data r],
                   domArr := domArr s' @ [dom_node r]\<rparr>))
            s
      | Some idx \<Rightarrow>
          if \<not> isEqual (dataArr s ! idx) (data r) then update_entry env r idx s
          else (Inr (chartPlotArr s ! idx), s))"

text \<open>
  A caller's sequence of \<^verbatim>\<open>render\<close> calls; a call that throws leaves the state it had
  reached, and the caller goes on.
\<close>

fun renders :: "'w env \<Rightarrow> request list \<Rightarrow> 'w state \<Rightarrow> 'w state" where
  "renders env [] s = s"
| "renders env (r # rs) s = renders env rs (snd (render env r s))"

definition registry_ok :: "'w state \<Rightarrow> bool" where
  "registry_ok s \<longleftrightarrow>
     distinct (domArr s) \<and>
     length (dataArr s) = length (domArr s) \<and>
     length (chartPlotArr s) = length (domArr s)"

section \<open>Properties of the registry\<close>

text \<open>The calls made between a state and a later one.\<close>

definition made_by :: "'w state \<Rightarrow> 'w state \<Rightarrow> call list" where
  "made_by s s' = drop (length (calls s)) (calls s')"

fun is_GetDom :: "call \<Rightarrow> bool" where
  "is_GetDom (GetDom r) = True"
| "is_GetDom c = False"

fun is_StateManagerFunc :: "call \<Rightarrow> bool" where
  "is_StateManagerFunc (StateManagerFunc p d c) = True"
| "is_StateManagerFunc c = False"

text \<open>The chart instance on which a call invokes a method, if it is a method call.\<close>

fun method_of :: "call \<Rightarrow> plot option" where
  "method_of (UpdateConfig p c) = Some p"
| "method_of (PlotRender p) = Some p"
| "method_of c = None"

lemma findIndex_None: "findIndex P xs = None \<longleftrightarrow> (\<forall>x \<in> set xs. \<not> P x)"
  by (induction xs) auto

lemma findIndex_Some:
  "findIndex P xs = Some i \<Longrightarrow> i < length xs \<and> P (xs ! i)"
  by (induction xs arbitrary: i) (auto split: if_splits)

lemma findIndex_append_new:
  "x \<notin> set xs \<Longrightarrow> findIndex (\<lambda>item. item = x) (xs @ [x]) = Some (length xs)"
  by (induction xs) auto

lemma findIndex_distinct:
  "distinct xs \<Longrightarrow> i < length xs \<Longrightarrow> findIndex (\<lambda>item. item = xs ! i) xs = Some i"
proof (induction xs arbitrary: i)
  case Nil
  then show ?case by simp
next
  case (Cons x xs)
  show ?case
  proof (cases i)
    case 0
    then show ?thesis by simp
  next
    case (Suc j)
    with Cons.prems have "xs ! j \<in> set xs" and "x \<notin> set xs" by auto
    then have "x \<noteq> xs ! j" by auto
    with Cons Suc show ?thesis by simp
  qed
qed

lemma and_then_Inl: "m s = (Inl e, s') \<Longrightarrow> and_then m f s = (Inl e, s')"
  by (simp add: and_then_def)

lemma and_then_Inr: "m s = (Inr x, s') \<Longrightarrow> and_then m f s = f x s'"
  by (simp add: and_then_def)


lemma outside_result:
  "f (world s) = (res, w) \<Longrightarrow> outside c f s = (res, s\<lparr>world := w, calls := calls s @ [c]\<rparr>)"
  by (simp add: outside_def)


text \<open>
  A property of the state that every step keeps is kept by a sequence of steps.
\<close>

lemma and_then_keeps:
  assumes "\<And>s. Q s \<Longrightarrow> Q (snd (m s))" and "\<And>x s. Q s \<Longrightarrow> Q (snd (f x s))" and "Q s"
  shows "Q (snd (and_then m f s))"
proof (cases "m s")
  case (Pair res s1)
  with assms(1) [OF assms(3)] have "Q s1" by simp
  with Pair assms(2) show ?thesis
    by (cases res) (simp_all add: and_then_def)
qed

lemma pure_step_keeps: "Q s \<Longrightarrow> Q (snd (pure_step v s))"
  by (simp add: pure_step_def)

lemma outside_keeps:
  assumes "\<And>w. Q (s\<lparr>world := w, calls := calls s @ [c]\<rparr>)"
  shows "Q (snd (outside c f s))"
  using assms by (simp add: outside_def split: prod.splits)

text \<open>
  The update branch writes the new data into the entry first; after that it only makes
  calls, none of them a creation, and method calls only on the entry's chart instance.
\<close>

lemma update_entry_keeps:
  assumes start: "Q (s\<lparr>dataArr := (dataArr s)[idx := data r]\<rparr>)"
    and step: "\<And>c s1 w. Q s1 \<Longrightarrow> \<not> is_GetDom c \<Longrightarrow>
                 method_of c \<in> {None, Some (chartPlotArr s ! idx)} \<Longrightarrow>
                 Q (s1\<lparr>world := w, calls := calls s1 @ [c]\<rparr>)"
  shows "Q (snd (update_entry env r idx s))"
proof -
  have origin: "Q (snd ((case getOriginConfig env of
        Some f \<Rightarrow> outside (GetOriginConfig (data r) (config r) (formatConfig r))
                    (f (data r) (config r) (formatConfig r))
      | None \<Rightarrow> pure_step (Inr (JObj []))) s1))" if "Q s1" for s1
    using that by (cases "getOriginConfig env") (simp_all add: pure_step_def outside_def step split: prod.splits)
  have manager: "Q (snd ((case stateManagerFunc env of
        Some f \<Rightarrow> outside (StateManagerFunc p (data r) (config r)) (f p (data r) (config r))
      | None \<Rightarrow> pure_step (Inr ())) s1))" if "Q s1" for s1 p
    using that by (cases "stateManagerFunc env") (simp_all add: pure_step_def outside_def step split: prod.splits)
  show ?thesis
    unfolding update_entry_def Let_def
    by (intro and_then_keeps [where Q = Q] pure_step_keeps [where Q = Q]
        outside_keeps [where Q = Q] step origin manager start) simp_all
qed

lemma update_entry_registry:
  "dataArr (snd (update_entry env r idx s)) = (dataArr s)[idx := data r] \<and>
   chartPlotArr (snd (update_entry env r idx s)) = chartPlotArr s \<and>
   domArr (snd (update_entry env r idx s)) = domArr s"
  by (rule update_entry_keeps) simp_all

lemma update_entry_calls:
  "\<exists>cs. calls (snd (update_entry env r idx s)) = calls s @ cs \<and>
     (\<forall>c \<in> set cs. \<not> is_GetDom c \<and> method_of c \<in> {None, Some (chartPlotArr s ! idx)})"
  by (rule update_entry_keeps) auto

lemma made_by_append:
  "calls s' = calls s @ cs \<Longrightarrow> made_by s s' = cs"
  by (simp add: made_by_def)

lemma render_create:
  assumes "dom_node r \<notin> set (domArr s)"
  shows "render env r s =
     (case getDom env r (world s) of
        (Inl e, w) \<Rightarrow> (Inl e, s\<lparr>world := w, calls := calls s @ [GetDom r]\<rparr>)
      | (Inr plot, w) \<Rightarrow>
          (Inr plot,
           s\<lparr>chartPlotArr := chartPlotArr s @ [plot], dataArr := dataArr s @ [data r],
             domArr := domArr s @ [dom_node r], world := w, calls := calls s @ [GetDom r]\<rparr>))"
proof -
  from assms have "findIndex (\<lambda>item. item = dom_node r) (domArr s) = None"
    by (auto simp: findIndex_None)
  then show ?thesis
    by (simp add: render_def and_then_def outside_def split: prod.splits sum.splits)
qed

lemma render_found:
  assumes "findIndex (\<lambda>item. item = dom_node r) (domArr s) = Some idx"
  shows "render env r s =
     (if \<not> isEqual (dataArr s ! idx) (data r) then update_entry env r idx s
      else (Inr (chartPlotArr s ! idx), s))"
  using assms by (simp add: render_def)

lemma findIndex_member:
  "x \<in> set xs \<Longrightarrow> \<exists>i. findIndex (\<lambda>item. item = x) xs = Some i"
  using findIndex_None [of "\<lambda>item. item = x" xs] by (cases "findIndex (\<lambda>item. item = x) xs") auto

text \<open>What one call of \<open>render\<close> does to the three arrays.\<close>

lemma render_registered:
  assumes "dom_node r \<in> set (domArr s)"
  shows "domArr (snd (render env r s)) = domArr s \<and>
      chartPlotArr (snd (render env r s)) = chartPlotArr s \<and>
      length (dataArr (snd (render env r s))) = length (dataArr s)"
proof -
  from findIndex_member [OF assms]
  obtain idx where "findIndex (\<lambda>item. item = dom_node r) (domArr s) = Some idx" ..
  then have "render env r s = update_entry env r idx s \<or>
      render env r s = (Inr (chartPlotArr s ! idx), s)"
    by (simp add: render_found)
  then show ?thesis
  proof
    assume "render env r s = update_entry env r idx s"
    then show ?thesis by (simp add: update_entry_registry)
  next
    assume "render env r s = (Inr (chartPlotArr s ! idx), s)"
    then show ?thesis by simp
  qed
qed

lemma render_unregistered:
  assumes "dom_node r \<notin> set (domArr s)"
  shows "(domArr (snd (render env r s)) = domArr s \<and>
       chartPlotArr (snd (render env r s)) = chartPlotArr s \<and>
       dataArr (snd (render env r s)) = dataArr s) \<or>
      (\<exists>plot. domArr (snd (render env r s)) = domArr s @ [dom_node r] \<and>
         chartPlotArr (snd (render env r s)) = chartPlotArr s @ [plot] \<and>
         dataArr (snd (render env r s)) = dataArr s @ [data r])"
proof -
  obtain res w' where call: "getDom env r (world s) = (res, w')"
    by (cases "getDom env r (world s)")
  show ?thesis
  proof (cases res)
    case (Inl e)
    with assms call show ?thesis by (simp add: render_create)
  next
    case (Inr plot)
    with assms call show ?thesis by (simp add: render_create)
  qed
qed

lemma render_registry_ok:
  assumes "registry_ok s"
  shows "registry_ok (snd (render env r s))"
proof (cases "dom_node r \<in> set (domArr s)")
  case True
  with assms render_registered [OF True, of env] show ?thesis
    by (simp add: registry_ok_def)
next
  case False
  with assms render_unregistered [OF False, of env] show ?thesis
    by (auto simp: registry_ok_def)
qed

lemma renders_registry_ok:
  "registry_ok s \<Longrightarrow> registry_ok (renders env rs s)"
  by (induction rs arbitrary: s) (simp_all add: render_registry_ok)

lemma initial_registry_ok: "registry_ok (initial w)"
  by (simp add: registry_ok_def initial_def)

lemma render_prefix:
  "prefix (domArr s) (domArr (snd (render env r s))) \<and>
   prefix (chartPlotArr s) (chartPlotArr (snd (render env r s)))"
proof (cases "dom_node r \<in> set (domArr s)")
  case True
  with render_registered [OF True, of env] show ?thesis by simp
next
  case False
  with render_unregistered [OF False, of env] show ?thesis by auto
qed

lemma renders_prefix:
  "prefix (domArr s) (domArr (renders env rs s)) \<and>
   prefix (chartPlotArr s) (chartPlotArr (renders env rs s))"
proof (induction rs arbitrary: s)
  case Nil
  show ?case by simp
next
  case (Cons r rs)
  from render_prefix [of s env r] Cons [of "snd (render env r s)"] show ?case
    by (auto intro: prefix_order.trans)
qed

text \<open>
  C5. In every state that a sequence of render calls reaches from the constructor, no
  mount target occurs twice in \<open>domArr\<close> and the three arrays have the same length.
  A further call for a registered target leaves \<open>domArr\<close> and \<open>chartPlotArr\<close> as they
  are and keeps the length of \<open>dataArr\<close> (the entry is updated in place); a call for an
  unregistered target adds at most one entry, at the end, for that target; and whatever
  calls follow, the targets and instances registered so far stay where they are.
\<close>

theorem one_entry_per_target:
  "registry_ok (renders env rs (initial w)) \<and>
   (dom_node r \<in> set (domArr (renders env rs (initial w))) \<longrightarrow>
      domArr (snd (render env r (renders env rs (initial w)))) = domArr (renders env rs (initial w)) \<and>
      chartPlotArr (snd (render env r (renders env rs (initial w)))) =
        chartPlotArr (renders env rs (initial w)) \<and>
      length (dataArr (snd (render env r (renders env rs (initial w))))) =
        length (dataArr (renders env rs (initial w)))) \<and>
   (dom_node r \<notin> set (domArr (renders env rs (initial w))) \<longrightarrow>
      domArr (snd (render env r (renders env rs (initial w)))) \<in>
        {domArr (renders env rs (initial w)), domArr (renders env rs (initial w)) @ [dom_node r]}) \<and>
   prefix (domArr (renders env rs (initial w))) (domArr (renders env rs' (renders env rs (initial w)))) \<and>
   prefix (chartPlotArr (renders env rs (initial w)))
     (chartPlotArr (renders env rs' (renders env rs (initial w))))"
proof -
  define s where "s = renders env rs (initial w)"
  have ok: "registry_ok s"
    unfolding s_def by (rule renders_registry_ok [OF initial_registry_ok])
  have registered: "dom_node r \<in> set (domArr s) \<longrightarrow>
      domArr (snd (render env r s)) = domArr s \<and>
      chartPlotArr (snd (render env r s)) = chartPlotArr s \<and>
      length (dataArr (snd (render env r s))) = length (dataArr s)"
    using render_registered [of r s env] by blast
  have fresh: "dom_node r \<notin> set (domArr s) \<longrightarrow>
      domArr (snd (render env r s)) \<in> {domArr s, domArr s @ [dom_node r]}"
    using render_unregistered [of r s env] by auto
  have later: "prefix (domArr s) (domArr (renders env rs' s)) \<and>
      prefix (chartPlotArr s) (chartPlotArr (renders env rs' s))"
    by (rule renders_prefix)
  from ok registered fresh later show ?thesis
    unfolding s_def by (intro conjI) blast+
qed

text \<open>Concrete surroundings on which the theorems are instantiated.\<close>

definition example_env :: "nat env" where
  "example_env =
     \<lparr>getDom = (\<lambda>r w. (Inr (100 + dom_node r), Suc w)),
      stateManagerFunc = Some (\<lambda>p d c w. (Inr (), Suc w)),
      getOriginConfig = Some (\<lambda>d c f w. (Inr (JObj [(''height'', JNum 300)]), w)),
      updateConfig = (\<lambda>p c w. (Inr (), Suc w)),
      plot_render = (\<lambda>p w. (Inr (), Suc w))\<rparr>"

definition example_request :: "element \<Rightarrow> jsval \<Rightarrow> request" where
  "example_request d v = \<lparr>dom_node = d, data = v, config = JUndefined, formatConfig = None\<rparr>"

lemmas run_simps =
  render_def update_entry_def and_then_def outside_def pure_step_def with_data_def
  formatMergeConfig_def mergeConfig.simps assign_def set_prop_def lookup_def initial_def made_by_def
  example_env_def example_request_def registry_ok_def

theorem one_entry_per_target_witness:
  "dom_node (example_request 1 (JNum 7)) \<in>
     set (domArr (renders example_env [example_request 1 (JNum 5), example_request 2 JNull] (initial 0))) \<and>
   domArr (snd (render example_env (example_request 1 (JNum 7))
     (renders example_env [example_request 1 (JNum 5), example_request 2 JNull] (initial 0)))) = [1, 2] \<and>
   dataArr (snd (render example_env (example_request 1 (JNum 7))
     (renders example_env [example_request 1 (JNum 5), example_request 2 JNull] (initial 0)))) =
     [JNum 7, JNull] \<and>
   registry_ok (renders example_env [example_request 1 (JNum 5), example_request 2 JNull] (initial 0))"
  using one_entry_per_target [of example_env "[example_request 1 (JNum 5), example_request 2 JNull]" 0
      "example_request 1 (JNum 7)" "[]"]
  by (simp add: run_simps)

text \<open>
  C9. On the creation branch \<open>getDom\<close> is called before anything is written: when it
  throws, the exception reaches the caller, the three arrays are as they were (only
  the outside state and the log have moved), and the next call for the same mount
  target calls \<open>getDom\<close> again and makes no other call.
\<close>

theorem create_failure_leaves_registry:
  assumes "dom_node r \<notin> set (domArr s)"
    and "getDom env r (world s) = (Inl e, w)"
    and "dom_node r' = dom_node r"
  shows "render env r s = (Inl e, s\<lparr>world := w, calls := calls s @ [GetDom r]\<rparr>) \<and>
    dataArr (snd (render env r s)) = dataArr s \<and>
    chartPlotArr (snd (render env r s)) = chartPlotArr s \<and>
    domArr (snd (render env r s)) = domArr s \<and>
    made_by (snd (render env r s)) (snd (render env r' (snd (render env r s)))) = [GetDom r']"
proof -
  define s1 where "s1 = s\<lparr>world := w, calls := calls s @ [GetDom r]\<rparr>"
  have first: "render env r s = (Inl e, s1)"
    using assms(1,2) by (simp add: render_create s1_def)
  have "dom_node r' \<notin> set (domArr s1)"
    using assms(1,3) by (simp add: s1_def)
  then have "calls (snd (render env r' s1)) = calls s1 @ [GetDom r']"
    by (cases "getDom env r' (world s1)") (simp add: render_create split: sum.splits)
  then have "made_by s1 (snd (render env r' s1)) = [GetDom r']"
    by (rule made_by_append)
  with first show ?thesis
    by (simp add: s1_def)
qed

theorem create_failure_leaves_registry_witness:
  "dom_node (example_request 1 (JNum 5)) \<notin> set (domArr (initial (0::nat))) \<and>
   getDom (example_env\<lparr>getDom := \<lambda>r w. (Inl (Thrown (JStr ''no container'')), Suc w)\<rparr>)
     (example_request 1 (JNum 5)) (world (initial 0)) = (Inl (Thrown (JStr ''no container'')), 1) \<and>
   render (example_env\<lparr>getDom := \<lambda>r w. (Inl (Thrown (JStr ''no container'')), Suc w)\<rparr>)
     (example_request 1 (JNum 5)) (initial 0) =
     (Inl (Thrown (JStr ''no container'')),
      \<lparr>dataArr = [], chartPlotArr = [], domArr = [], world = 1,
       calls = [GetDom (example_request 1 (JNum 5))]\<rparr>)"
  using create_failure_leaves_registry
    [of "example_request 1 (JNum 5)" "initial 0"
        "example_env\<lparr>getDom := \<lambda>r w. (Inl (Thrown (JStr ''no container'')), Suc w)\<rparr>"
        "Thrown (JStr ''no container'')" 1 "example_request 1 (JNum 5)"]
  by (simp add: initial_def example_env_def example_request_def)

lemma render_calls_registered:
  assumes "findIndex (\<lambda>item. item = dom_node r) (domArr s) = Some idx"
  shows "\<exists>cs. calls (snd (render env r s)) = calls s @ cs \<and>
     (\<forall>c \<in> set cs. \<not> is_GetDom c \<and> method_of c \<in> {None, Some (chartPlotArr s ! idx)})"
proof (cases "isEqual (dataArr s ! idx) (data r)")
  case True
  with assms show ?thesis by (simp add: render_found)
next
  case False
  with assms update_entry_calls [of env r idx s] show ?thesis by (simp add: render_found)
qed

lemma render_dataArr_registered:
  assumes "findIndex (\<lambda>item. item = dom_node r) (domArr s) = Some idx"
  shows "dataArr (snd (render env r s)) = dataArr s \<or>
     dataArr (snd (render env r s)) = (dataArr s)[idx := data r]"
  using assms by (simp add: render_found update_entry_registry)

text \<open>
  C7. For two registered mount targets at different indices, a call for the first
  leaves the second's entry (target, stored data, stored instance) as it is; the call
  creates nothing, and every method call it makes is on the first target's stored
  instance, so none is on the second target's instance when the two instances differ.
\<close>

theorem other_target_untouched:
  assumes "registry_ok s" and "i < length (domArr s)" and "j < length (domArr s)"
    and "i \<noteq> j" and "dom_node r = domArr s ! i"
  shows "domArr (snd (render env r s)) ! j = domArr s ! j \<and>
    dataArr (snd (render env r s)) ! j = dataArr s ! j \<and>
    chartPlotArr (snd (render env r s)) ! j = chartPlotArr s ! j \<and>
    (\<forall>c \<in> set (made_by s (snd (render env r s))).
       \<not> is_GetDom c \<and> method_of c \<in> {None, Some (chartPlotArr s ! i)}) \<and>
    (chartPlotArr s ! j \<noteq> chartPlotArr s ! i \<longrightarrow>
       (\<forall>c \<in> set (made_by s (snd (render env r s))). method_of c \<noteq> Some (chartPlotArr s ! j)))"
proof -
  from assms(1,2,5) have found: "findIndex (\<lambda>item. item = dom_node r) (domArr s) = Some i"
    by (simp add: registry_ok_def findIndex_distinct)
  from assms(2,5) have "dom_node r \<in> set (domArr s)" by simp
  from render_registered [OF this, of env]
  have arrays: "domArr (snd (render env r s)) = domArr s"
    "chartPlotArr (snd (render env r s)) = chartPlotArr s" by simp_all
  from render_dataArr_registered [OF found, of env] assms(4)
  have stored: "dataArr (snd (render env r s)) ! j = dataArr s ! j" by auto
  from render_calls_registered [OF found, of env] obtain cs
    where cs: "calls (snd (render env r s)) = calls s @ cs"
      and only: "\<forall>c \<in> set cs. \<not> is_GetDom c \<and> method_of c \<in> {None, Some (chartPlotArr s ! i)}"
    by blast
  from cs have made: "made_by s (snd (render env r s)) = cs" by (rule made_by_append)
  from only have "chartPlotArr s ! j \<noteq> chartPlotArr s ! i \<longrightarrow>
      (\<forall>c \<in> set cs. method_of c \<noteq> Some (chartPlotArr s ! j))" by auto
  with arrays stored only made show ?thesis by simp
qed

theorem other_target_untouched_witness:
  "registry_ok (renders example_env [example_request 1 (JNum 5), example_request 2 JNull] (initial 0)) \<and>
   dataArr (snd (render example_env (example_request 1 (JNum 7))
     (renders example_env [example_request 1 (JNum 5), example_request 2 JNull] (initial 0)))) ! 1 = JNull \<and>
   chartPlotArr (snd (render example_env (example_request 1 (JNum 7))
     (renders example_env [example_request 1 (JNum 5), example_request 2 JNull] (initial 0)))) ! 1 = 102 \<and>
   made_by (renders example_env [example_request 1 (JNum 5), example_request 2 JNull] (initial 0))
     (snd (render example_env (example_request 1 (JNum 7))
       (renders example_env [example_request 1 (JNum 5), example_request 2 JNull] (initial 0)))) =
     [GetOriginConfig (JNum 7) JUndefined None,
      UpdateConfig 101 (JObj [(''data'', JNum 7), (''height'', JNum 300)]),
      PlotRender 101,
      StateManagerFunc 101 (JNum 7) JUndefined]"
  using other_target_untouched
    [of "renders example_env [example_request 1 (JNum 5), example_request 2 JNull] (initial 0)" 0 1
        "example_request 1 (JNum 7)" example_env]
  by (simp add: run_simps)

text \<open>When the update branch returns, it returns the entry's chart instance.\<close>

lemma and_then_result:
  assumes "\<And>x s1. P (fst (f x s1))" and "\<And>e. P (Inl e)"
  shows "P (fst (and_then m f s))"
proof (cases "m s")
  case (Pair res s1)
  with assms show ?thesis
    by (cases res) (simp_all add: and_then_def)
qed

lemma update_entry_result:
  "fst (update_entry env r idx s) = Inr p \<Longrightarrow> p = chartPlotArr s ! idx"
proof -
  have "\<forall>p. fst (update_entry env r idx s) = Inr p \<longrightarrow> p = chartPlotArr s ! idx"
    unfolding update_entry_def Let_def
    by (intro and_then_result [where P = "\<lambda>res. \<forall>p. res = Inr p \<longrightarrow> p = chartPlotArr s ! idx"])
      (simp_all add: pure_step_def)
  then show "fst (update_entry env r idx s) = Inr p \<Longrightarrow> p = chartPlotArr s ! idx"
    by blast
qed

text \<open>
  C1. Let a first call of \<open>render\<close> return normally, and let a second call name the
  same mount target with data deeply equal to the first call's (another object, or
  the same record with its keys in another order). Then the second call returns the
  instance the first call returned and changes nothing: not the arrays, not the
  outside state, and it makes no call (no \<open>getDom\<close>, no \<open>updateConfig\<close>, no repaint).
  The two calls together call \<open>getDom\<close> at most once, and the stored instance of the
  target is the one returned.
\<close>

theorem render_twice_same_data:
  assumes ok: "registry_ok s"
    and first: "render env r1 s = (Inr p, s1)"
    and same: "dom_node r2 = dom_node r1"
    and eq: "isEqual (data r1) (data r2)"
  shows "render env r2 s1 = (Inr p, s1) \<and>
    made_by s1 (snd (render env r2 s1)) = [] \<and>
    length (filter is_GetDom (made_by s s1)) \<le> 1 \<and>
    (\<exists>idx. findIndex (\<lambda>item. item = dom_node r2) (domArr s1) = Some idx \<and>
       chartPlotArr s1 ! idx = p)"
proof -
  have "\<exists>idx. findIndex (\<lambda>item. item = dom_node r1) (domArr s1) = Some idx \<and>
      chartPlotArr s1 ! idx = p \<and> isEqual (dataArr s1 ! idx) (data r2) \<and>
      length (filter is_GetDom (made_by s s1)) \<le> 1"
  proof (cases "dom_node r1 \<in> set (domArr s)")
    case False
    obtain res w where call: "getDom env r1 (world s) = (res, w)"
      by (cases "getDom env r1 (world s)")
    with first False have res: "res = Inr p"
      and s1: "s1 = s\<lparr>chartPlotArr := chartPlotArr s @ [p], dataArr := dataArr s @ [data r1],
          domArr := domArr s @ [dom_node r1], world := w, calls := calls s @ [GetDom r1]\<rparr>"
      by (cases res; simp add: render_create)+
    from False have "findIndex (\<lambda>item. item = dom_node r1) (domArr s1) = Some (length (domArr s))"
      by (simp add: s1 findIndex_append_new)
    moreover from ok have "chartPlotArr s1 ! length (domArr s) = p"
      and "dataArr s1 ! length (domArr s) = data r1"
      by (simp_all add: s1 registry_ok_def nth_append)
    moreover have "made_by s s1 = [GetDom r1]"
      by (rule made_by_append) (simp add: s1)
    ultimately show ?thesis using eq by simp
  next
    case True
    from findIndex_member [OF True]
    obtain idx where found: "findIndex (\<lambda>item. item = dom_node r1) (domArr s) = Some idx" ..
    from findIndex_Some [OF found] ok have idx: "idx < length (dataArr s)"
      by (simp add: registry_ok_def)
    show ?thesis
    proof (cases "isEqual (dataArr s ! idx) (data r1)")
      case True
      with first found have "s1 = s" and "p = chartPlotArr s ! idx"
        by (auto simp: render_found)
      moreover from True eq have "isEqual (dataArr s ! idx) (data r2)"
        by (rule isEqual_trans)
      ultimately show ?thesis using found by (simp add: made_by_def)
    next
      case False
      with first found have upd: "update_entry env r1 idx s = (Inr p, s1)"
        by (simp add: render_found)
      from update_entry_registry [of env r1 idx s] upd
      have arrays: "dataArr s1 = (dataArr s)[idx := data r1]" "chartPlotArr s1 = chartPlotArr s"
        "domArr s1 = domArr s" by simp_all
      from update_entry_result [of env r1 idx s p] upd have p: "p = chartPlotArr s ! idx" by simp
      from update_entry_calls [of env r1 idx s] upd obtain cs
        where cs: "calls s1 = calls s @ cs" and none: "\<forall>c \<in> set cs. \<not> is_GetDom c" by auto
      from cs have "made_by s s1 = cs" by (rule made_by_append)
      with none have "filter is_GetDom (made_by s s1) = []" by (simp add: filter_empty_conv)
      with arrays p found idx eq show ?thesis by simp
    qed
  qed
  then obtain idx where found: "findIndex (\<lambda>item. item = dom_node r1) (domArr s1) = Some idx"
    and inst: "chartPlotArr s1 ! idx = p" and stored: "isEqual (dataArr s1 ! idx) (data r2)"
    and once: "length (filter is_GetDom (made_by s s1)) \<le> 1" by blast
  from found same have found2: "findIndex (\<lambda>item. item = dom_node r2) (domArr s1) = Some idx"
    by simp
  with inst stored have "render env r2 s1 = (Inr p, s1)"
    by (simp add: render_found)
  with found2 inst once show ?thesis
    by (simp add: made_by_def)
qed

theorem render_twice_same_data_witness:
  "registry_ok (initial (0::nat)) \<and>
   render example_env
     (example_request 1 (JObj [(''x'', JNum 1), (''y'', JArr [JNum 2])])) (initial 0) =
     (Inr 101,
      \<lparr>dataArr = [JObj [(''x'', JNum 1), (''y'', JArr [JNum 2])]], chartPlotArr = [101],
       domArr = [1], world = 1,
       calls = [GetDom (example_request 1 (JObj [(''x'', JNum 1), (''y'', JArr [JNum 2])]))]\<rparr>) \<and>
   isEqual (JObj [(''x'', JNum 1), (''y'', JArr [JNum 2])])
     (JObj [(''y'', JArr [JNum 2]), (''x'', JNum 1)]) \<and>
   render example_env
     (example_request 1 (JObj [(''y'', JArr [JNum 2]), (''x'', JNum 1)]))
     \<lparr>dataArr = [JObj [(''x'', JNum 1), (''y'', JArr [JNum 2])]], chartPlotArr = [101],
      domArr = [1], world = 1,
      calls = [GetDom (example_request 1 (JObj [(''x'', JNum 1), (''y'', JArr [JNum 2])]))]\<rparr> =
     (Inr 101,
      \<lparr>dataArr = [JObj [(''x'', JNum 1), (''y'', JArr [JNum 2])]], chartPlotArr = [101],
       domArr = [1], world = 1,
       calls = [GetDom (example_request 1 (JObj [(''x'', JNum 1), (''y'', JArr [JNum 2])]))]\<rparr>)"
proof -
  have ok: "registry_ok (initial (0::nat))"
    by (rule initial_registry_ok)
  have first: "render example_env
     (example_request 1 (JObj [(''x'', JNum 1), (''y'', JArr [JNum 2])])) (initial 0) =
     (Inr 101,
      \<lparr>dataArr = [JObj [(''x'', JNum 1), (''y'', JArr [JNum 2])]], chartPlotArr = [101],
       domArr = [1], world = 1,
       calls = [GetDom (example_request 1 (JObj [(''x'', JNum 1), (''y'', JArr [JNum 2])]))]\<rparr>)"
    by (simp add: run_simps)
  have same: "dom_node (example_request 1 (JObj [(''y'', JArr [JNum 2]), (''x'', JNum 1)])) =
      dom_node (example_request 1 (JObj [(''x'', JNum 1), (''y'', JArr [JNum 2])]))"
    by (simp add: example_request_def)
  have eq: "isEqual (data (example_request 1 (JObj [(''x'', JNum 1), (''y'', JArr [JNum 2])])))
      (data (example_request 1 (JObj [(''y'', JArr [JNum 2]), (''x'', JNum 1)])))"
    by (simp add: example_request_def)
  from render_twice_same_data [OF ok first same eq] ok first eq show ?thesis
    by (simp add: example_request_def)
qed

text \<open>The calls of the update branch, as functions of the request.\<close>

definition origin_calls :: "'w env \<Rightarrow> request \<Rightarrow> call list" where
  "origin_calls env r =
     (case getOriginConfig env of
        None \<Rightarrow> []
      | Some f \<Rightarrow> [GetOriginConfig (data r) (config r) (formatConfig r)])"


text \<open>
  The origin configuration of an update: what \<open>getOriginConfig\<close> returns on the data,
  the configuration and the formatter of the request, or the empty record when no
  \<open>getOriginConfig\<close> was given to the constructor.
\<close>

definition origin_config :: "'w env \<Rightarrow> request \<Rightarrow> 'w \<Rightarrow> (exn + jsval) \<times> 'w" where
  "origin_config env r w =
     (case getOriginConfig env of
        None \<Rightarrow> (Inr (JObj []), w)
      | Some f \<Rightarrow> f (data r) (config r) (formatConfig r) w)"

definition target_config :: "request \<Rightarrow> jsval" where
  "target_config r = (if truthy (config r) then config r else JObj [])"

lemma origin_step:
  "(case getOriginConfig env of
      Some f \<Rightarrow> outside (GetOriginConfig (data r) (config r) (formatConfig r))
                  (f (data r) (config r) (formatConfig r))
    | None \<Rightarrow> pure_step (Inr (JObj []))) s =
   (fst (origin_config env r (world s)),
    s\<lparr>world := snd (origin_config env r (world s)), calls := calls s @ origin_calls env r\<rparr>)"
  by (cases "getOriginConfig env")
    (simp_all add: origin_config_def origin_calls_def pure_step_def outside_def split: prod.splits)

















text \<open>
  C8. On the update branch the new data is stored before \<open>updateConfig\<close> and the
  instance's \<open>render\<close> are called: when the origin configuration and the merge are
  obtained and then \<open>updateConfig\<close> throws, or \<open>updateConfig\<close> returns and the
  instance's \<open>render\<close> throws, the exception reaches the caller of \<open>render\<close>, and the
  entry already holds the new data (nothing is rolled back); the state manager is not
  called.
\<close>

theorem update_not_rolled_back:
  assumes ok: "registry_ok s"
    and found: "findIndex (\<lambda>item. item = dom_node r) (domArr s) = Some idx"
    and changed: "\<not> isEqual (dataArr s ! idx) (data r)"
    and origin: "origin_config env r (world s) = (Inr originConfig, w1)"
    and merged: "formatMergeConfig originConfig (target_config r) (formatConfig r) = Inr merged"
    and throws:
      "updateConfig env (chartPlotArr s ! idx) (with_data (data r) merged) w1 = (Inl e, w2) \<or>
       (updateConfig env (chartPlotArr s ! idx) (with_data (data r) merged) w1 = (Inr (), w2) \<and>
        plot_render env (chartPlotArr s ! idx) w2 = (Inl e, w3))"
  shows "fst (render env r s) = Inl e \<and>
    dataArr (snd (render env r s)) = (dataArr s)[idx := data r] \<and>
    dataArr (snd (render env r s)) ! idx = data r \<and>
    filter is_StateManagerFunc (made_by s (snd (render env r s))) = []"
proof -
  from found changed have upd: "render env r s = update_entry env r idx s"
    by (simp add: render_found)
  from findIndex_Some [OF found] ok have idx: "idx < length (dataArr s)"
    by (simp add: registry_ok_def)
  have stored: "dataArr (snd (render env r s)) = (dataArr s)[idx := data r]"
    by (simp add: upd update_entry_registry)
  from merged have merged':
    "formatMergeConfig originConfig (if truthy (config r) then config r else JObj [])
       (formatConfig r) = Inr merged"
    by (simp add: target_config_def)
  let ?plot = "chartPlotArr s ! idx"
  let ?arg = "with_data (data r) merged"
  from throws have "fst (update_entry env r idx s) = Inl e \<and>
      filter is_StateManagerFunc (drop (length (calls s)) (calls (snd (update_entry env r idx s)))) = []"
  proof
    assume "updateConfig env ?plot ?arg w1 = (Inl e, w2)"
    with origin merged' show ?thesis
      by (simp add: update_entry_def Let_def and_then_def origin_step pure_step_def outside_def
          origin_calls_def split: option.splits)
  next
    assume "updateConfig env ?plot ?arg w1 = (Inr (), w2) \<and> plot_render env ?plot w2 = (Inl e, w3)"
    with origin merged' show ?thesis
      by (simp add: update_entry_def Let_def and_then_def origin_step pure_step_def outside_def
          origin_calls_def split: option.splits)
  qed
  with stored idx show ?thesis
    by (simp add: upd made_by_def)
qed

theorem update_not_rolled_back_witness:
  "registry_ok (renders example_env [example_request 1 (JNum 5)] (initial 0)) \<and>
   findIndex (\<lambda>item. item = dom_node (example_request 1 (JNum 7)))
     (domArr (renders example_env [example_request 1 (JNum 5)] (initial 0))) = Some 0 \<and>
   \<not> isEqual (dataArr (renders example_env [example_request 1 (JNum 5)] (initial 0)) ! 0)
     (data (example_request 1 (JNum 7))) \<and>
   updateConfig (example_env\<lparr>updateConfig := \<lambda>p c w. (Inl (Thrown (JStr ''destroyed'')), w)\<rparr>)
     101 (JObj [(''data'', JNum 7), (''height'', JNum 300)]) 1 =
     (Inl (Thrown (JStr ''destroyed'')), 1) \<and>
   render (example_env\<lparr>updateConfig := \<lambda>p c w. (Inl (Thrown (JStr ''destroyed'')), w)\<rparr>)
     (example_request 1 (JNum 7))
     (renders example_env [example_request 1 (JNum 5)] (initial 0)) =
     (Inl (Thrown (JStr ''destroyed'')),
      \<lparr>dataArr = [JNum 7], chartPlotArr = [101], domArr = [1], world = 1,
       calls = [GetDom (example_request 1 (JNum 5)),
                GetOriginConfig (JNum 7) JUndefined None,
                UpdateConfig 101 (JObj [(''data'', JNum 7), (''height'', JNum 300)])]\<rparr>)"
  using update_not_rolled_back
    [of "renders example_env [example_request 1 (JNum 5)] (initial 0)"
        "example_request 1 (JNum 7)" 0
        "example_env\<lparr>updateConfig := \<lambda>p c w. (Inl (Thrown (JStr ''destroyed'')), w)\<rparr>"
        "JObj [(''height'', JNum 300)]" 1 "JObj [(''height'', JNum 300)]"
        "Thrown (JStr ''destroyed'')" 1 1]
  by (simp add: run_simps origin_config_def target_config_def)

section \<open>Properties of mergeConfig and formatMergeConfig\<close>

text \<open>
  On an origin and a target that are neither null nor undefined, \<open>mergeConfig\<close> does not
  throw and returns a record.
\<close>

lemma get_prop_defined:
  "v \<noteq> JUndefined \<Longrightarrow> v \<noteq> JNull \<Longrightarrow> \<exists>x. get_prop v key = Inr x"
  by (cases v) simp_all

lemma truthy_defined: "truthy v \<Longrightarrow> v \<noteq> JUndefined \<and> v \<noteq> JNull"
  by (cases v) simp_all

lemma mergeConfig_returns_record:
  "(originConfig \<noteq> JUndefined \<longrightarrow> originConfig \<noteq> JNull \<longrightarrow>
    targetConfig \<noteq> JUndefined \<longrightarrow> targetConfig \<noteq> JNull \<longrightarrow>
      (\<exists>kvs. mergeConfig originConfig targetConfig = Inr (JObj kvs)))"
  "(originConfig \<noteq> JUndefined \<longrightarrow> originConfig \<noteq> JNull \<longrightarrow>
    targetConfig \<noteq> JUndefined \<longrightarrow> targetConfig \<noteq> JNull \<longrightarrow>
      (\<exists>kvs. forEach_key originConfig targetConfig keys modifiedObj = Inr (JObj kvs)))"
proof (induction originConfig targetConfig and originConfig targetConfig keys modifiedObj
    rule: mergeConfig_forEach_key.induct)
  case (1 originConfig targetConfig)
  then show ?case by (simp add: mergeConfig.simps Let_def)
next
  case (2 originConfig targetConfig modifiedObj)
  show ?case by simp
next
  case (3 originConfig targetConfig key keys modifiedObj)
  show ?case
  proof (intro impI)
    assume defined: "originConfig \<noteq> JUndefined" "originConfig \<noteq> JNull"
      "targetConfig \<noteq> JUndefined" "targetConfig \<noteq> JNull"
    from get_prop_defined [OF defined(1,2)] obtain ov where ov: "get_prop originConfig key = Inr ov"
      by blast
    from get_prop_defined [OF defined(3,4)] obtain tv where tv: "get_prop targetConfig key = Inr tv"
      by blast
    show "\<exists>kvs. forEach_key originConfig targetConfig (key # keys) modifiedObj = Inr (JObj kvs)"
    proof (cases "truthy ov")
      case False
      with ov defined "3.IH"(1) [OF ov] show ?thesis by simp
    next
      case True
      show ?thesis
      proof (cases "truthy tv \<and> typeof_object tv \<and> \<not> isArray tv")
        case False
        with True ov tv defined "3.IH"(4) [OF ov _ tv] show ?thesis by auto
      next
        case target_record: True
        with True truthy_defined "3.IH"(2) [OF ov _ tv]
        obtain merged where merged: "mergeConfig ov tv = Inr merged" by blast
        from True target_record ov tv merged defined "3.IH"(3) [OF ov _ tv _ merged]
        show ?thesis by auto
      qed
    qed
  qed
qed

text \<open>The formatter of the spec's example, \<^verbatim>\<open>cfg => ({a: cfg.a + 100})\<close>, on a numeric \<^verbatim>\<open>a\<close>
  (the sum of 100 and another kind of value is a NaN or a string, which the values
  here leave out; the record is returned as it is then).\<close>

definition add100 :: formatter where
  "add100 cfg =
     (case get_prop cfg ''a'' of
        Inl e \<Rightarrow> Inl e
      | Inr (JNum n) \<Rightarrow> Inr (JObj [(''a'', JNum (n + 100))])
      | Inr v \<Rightarrow> Inr cfg)"

text \<open>
  \<open>formatMergeConfig\<close> is \<open>mergeConfig\<close> of origin and target, followed by the formatter
  when one is given. On two records the merge does not throw, so there the result is
  the merged record, or the formatter's result on it. The spec's example evaluates to
  \<^verbatim>\<open>{a: 102}\<close>.
\<close>

lemma formatMergeConfig_pipeline:
  "formatMergeConfig originConfig targetConfig None = mergeConfig originConfig targetConfig \<and>
   formatMergeConfig originConfig targetConfig (Some f) =
     (case mergeConfig originConfig targetConfig of Inl e \<Rightarrow> Inl e | Inr merged \<Rightarrow> f merged) \<and>
   (\<exists>merged. mergeConfig (JObj origin) (JObj target) = Inr (JObj merged) \<and>
      formatMergeConfig (JObj origin) (JObj target) None = Inr (JObj merged) \<and>
      formatMergeConfig (JObj origin) (JObj target) (Some f) = f (JObj merged)) \<and>
   formatMergeConfig (JObj [(''a'', JNum 1)]) (JObj [(''a'', JNum 2)]) (Some add100) =
     Inr (JObj [(''a'', JNum 102)])"
proof -
  have plain: "formatMergeConfig originConfig targetConfig None = mergeConfig originConfig targetConfig"
    by (simp add: formatMergeConfig_def split: sum.splits)
  have formatted: "formatMergeConfig originConfig targetConfig (Some f) =
     (case mergeConfig originConfig targetConfig of Inl e \<Rightarrow> Inl e | Inr merged \<Rightarrow> f merged)"
    by (simp add: formatMergeConfig_def split: sum.splits)
  from mergeConfig_returns_record(1) [of "JObj origin" "JObj target"]
  obtain merged where "mergeConfig (JObj origin) (JObj target) = Inr (JObj merged)" by auto
  then have records: "\<exists>merged. mergeConfig (JObj origin) (JObj target) = Inr (JObj merged) \<and>
      formatMergeConfig (JObj origin) (JObj target) None = Inr (JObj merged) \<and>
      formatMergeConfig (JObj origin) (JObj target) (Some f) = f (JObj merged)"
    by (simp add: formatMergeConfig_def)
  have example: "formatMergeConfig (JObj [(''a'', JNum 1)]) (JObj [(''a'', JNum 2)]) (Some add100) =
     Inr (JObj [(''a'', JNum 102)])"
    by (simp add: formatMergeConfig_def mergeConfig.simps add100_def assign_def set_prop_def lookup_def)
  from plain formatted records example show ?thesis by blast
qed

text \<open>The three examples of the spec's deep-merge property.\<close>

lemma mergeConfig_examples:
  "mergeConfig (JObj [(''a'', JObj [(''x'', JNum 1), (''y'', JNum 2)])])
     (JObj [(''a'', JObj [(''y'', JNum 3)])]) =
     Inr (JObj [(''a'', JObj [(''x'', JNum 1), (''y'', JNum 3)])])"
  "mergeConfig (JObj [(''a'', JArr [JNum 1, JNum 2])]) (JObj [(''a'', JArr [JNum 3])]) =
     Inr (JObj [(''a'', JArr [JNum 3])])"
  "mergeConfig (JObj [(''a'', JNum 1)]) (JObj [(''a'', JObj [(''b'', JNum 2)])]) =
     Inr (JObj [(''a'', JObj [(''b'', JNum 2)])])"
  by (simp_all add: mergeConfig.simps assign_def set_prop_def lookup_def indexed_def index_key.simps digit_char_def upt_rec)

section \<open>The merge rule of the spec, and where the code follows it\<close>

text \<open>
  The deep-merge rule as the spec words it (section 4.1): the target is overlaid on the
  origin, and for a key present in both whose target value is a record, the rule is
  applied to the two values of the key instead. A value that is not a record has no
  fields, so that a record overlaid on it is that record: a change of type replaces.
\<close>

fun fields :: "jsval \<Rightarrow> (string \<times> jsval) list" where
  "fields (JObj kvs) = kvs"
| "fields v = []"

function mergeConfig_spec :: "jsval \<Rightarrow> jsval \<Rightarrow> jsval" where
  "mergeConfig_spec origin target =
     JObj (map (\<lambda>(key, v).
             (key,
              case map_of (fields origin) key of
                None \<Rightarrow> v
              | Some ov \<Rightarrow>
                  (case map_of (fields target) key of
                     Some (JObj tkvs) \<Rightarrow> mergeConfig_spec ov (JObj tkvs)
                   | _ \<Rightarrow> v)))
          (assign (assign [] (fields origin)) (fields target)))"
  by pat_completeness auto

termination
proof (relation "measure (\<lambda>(origin, target). size target)", goal_cases)
  case 1
  show ?case by simp
next
  case (2 origin target p key v ov tv tkvs)
  then have "(key, JObj tkvs) \<in> set (fields target)" by (auto dest: map_of_SomeD)
  then show ?case
    by (cases target) (auto dest: size_entry_less)
qed

declare mergeConfig_spec.simps [simp del]

text \<open>Records with no key twice, at every depth: the records of the language.\<close>

fun distinct_keys :: "jsval \<Rightarrow> bool" where
  "distinct_keys (JObj kvs) =
     (distinct (map fst kvs) \<and> list_all (\<lambda>(k, v). distinct_keys v) kvs)"
| "distinct_keys (JArr xs) = list_all distinct_keys xs"
| "distinct_keys v = True"

text \<open>
  The origin values that \<^verbatim>\<open>Object.assign\<close> copies nothing from, unless they are
  records: everything but the non-empty strings and the non-empty arrays.
\<close>

fun unboxed :: "jsval \<Rightarrow> bool" where
  "unboxed (JStr s) = (s = [])"
| "unboxed (JArr xs) = (xs = [])"
| "unboxed v = True"

text \<open>
  Origin and target such that, wherever the rule recurses, the origin value is unboxed.
\<close>

function mergeable :: "jsval \<Rightarrow> jsval \<Rightarrow> bool" where
  "mergeable origin target =
     list_all (\<lambda>(key, tv).
        case map_of (fields origin) key of
          None \<Rightarrow> True
        | Some ov \<Rightarrow>
            (case tv of
               JObj tkvs \<Rightarrow> unboxed ov \<and> mergeable ov (JObj tkvs)
             | _ \<Rightarrow> True))
       (fields target)"
  by pat_completeness auto

termination
proof (relation "measure (\<lambda>(origin, target). size target)", goal_cases)
  case 1
  show ?case by simp
next
  case (2 origin target p key tv ov tkvs)
  then have "(key, JObj tkvs) \<in> set (fields target)" by auto
  then show ?case
    by (cases target) (auto dest: size_entry_less)
qed

declare mergeable.simps [simp del]

text \<open>Assignment to the properties of a record, as a map from keys to values.\<close>

lemma set_prop_keys: "fst ` set (set_prop m key v) = insert key (fst ` set m)"
  by (simp add: set_prop_def dom_update)

lemma set_prop_distinct: "distinct (map fst m) \<Longrightarrow> distinct (map fst (set_prop m key v))"
  by (simp add: set_prop_def distinct_update)

lemma map_of_set_prop: "map_of (set_prop m key v) = (map_of m)(key \<mapsto> v)"
  by (simp add: set_prop_def update_conv')

lemma assign_Cons: "assign obj ((k, v) # props) = assign (set_prop obj k v) props"
  by (simp add: assign_def)

lemma assign_distinct: "distinct (map fst obj) \<Longrightarrow> distinct (map fst (assign obj props))"
proof (induction props arbitrary: obj)
  case Nil
  then show ?case by (simp add: assign_def)
next
  case (Cons p props)
  then show ?case by (cases p) (simp add: assign_Cons set_prop_distinct)
qed

lemma assign_keys: "fst ` set (assign obj props) = fst ` set obj \<union> fst ` set props"
proof (induction props arbitrary: obj)
  case Nil
  show ?case by (simp add: assign_def)
next
  case (Cons p props)
  then show ?case by (cases p) (auto simp: assign_Cons set_prop_keys)
qed

lemma map_of_assign:
  "distinct (map fst props) \<Longrightarrow> map_of (assign obj props) = map_of obj ++ map_of props"
proof (induction props arbitrary: obj)
  case Nil
  show ?case by (simp add: assign_def)
next
  case (Cons p props)
  obtain k v where p: "p = (k, v)" by (cases p)
  with Cons.prems have fresh: "map_of props k = None" and rest: "distinct (map fst props)"
    by (auto simp: map_of_eq_None_iff)
  have "map_of (assign obj (p # props)) = map_of (set_prop obj k v) ++ map_of props"
    by (simp only: p assign_Cons Cons.IH [OF rest])
  also have "\<dots> = (map_of obj)(k \<mapsto> v) ++ map_of props"
    by (simp only: map_of_set_prop)
  also have "\<dots> = map_of obj ++ map_of (p # props)"
    using fresh by (auto simp: p fun_eq_iff map_add_def split: option.splits)
  finally show ?case .
qed

lemma set_prop_new: "key \<notin> fst ` set m \<Longrightarrow> set_prop m key v = m @ [(key, v)]"
  by (induction m) (auto simp: set_prop_def)

lemma assign_append:
  "distinct (map fst kvs) \<Longrightarrow> fst ` set obj \<inter> fst ` set kvs = {} \<Longrightarrow> assign obj kvs = obj @ kvs"
proof (induction kvs arbitrary: obj)
  case Nil
  show ?case by (simp add: assign_def)
next
  case (Cons p kvs)
  obtain k v where p: "p = (k, v)" by (cases p)
  with Cons.prems have "k \<notin> fst ` set obj" by auto
  then have "set_prop obj k v = obj @ [(k, v)]" by (rule set_prop_new)
  moreover from Cons.prems p have "distinct (map fst kvs)"
    and "fst ` set (obj @ [(k, v)]) \<inter> fst ` set kvs = {}" by auto
  ultimately show ?case using Cons.IH [of "obj @ [(k, v)]"]
    by (simp add: p assign_Cons)
qed

lemma assign_empty: "distinct (map fst kvs) \<Longrightarrow> assign [] kvs = kvs"
  using assign_append [of kvs "[]"] by simp

lemma set_prop_map:
  "distinct (map fst m) \<Longrightarrow> key \<in> fst ` set m \<Longrightarrow>
   set_prop m key v = map (\<lambda>(k, x). if k = key then (k, v) else (k, x)) m"
proof (induction m)
  case Nil
  then show ?case by simp
next
  case (Cons p m)
  obtain k x where p: "p = (k, x)" by (cases p)
  show ?case
  proof (cases "k = key")
    case True
    with Cons.prems p have "key \<notin> fst ` set m" by auto
    then have "map (\<lambda>(k, x). if k = key then (k, v) else (k, x)) m = m"
      by (intro map_idI) (force simp: image_iff)
    with True p show ?thesis by (simp add: set_prop_def)
  next
    case False
    with Cons p show ?thesis by (auto simp: set_prop_def)
  qed
qed

text \<open>
  What the loop of \<^verbatim>\<open>mergeConfig\<close> leaves under one key whose value was \<open>v\<close>.
\<close>

definition merged_value :: "jsval \<Rightarrow> jsval \<Rightarrow> string \<Rightarrow> jsval \<Rightarrow> jsval" where
  "merged_value originConfig targetConfig key v =
     (case get_prop originConfig key of
        Inl e \<Rightarrow> v
      | Inr ov \<Rightarrow>
          if \<not> truthy ov then v
          else
            (case get_prop targetConfig key of
               Inl e \<Rightarrow> v
             | Inr tv \<Rightarrow>
                 if truthy tv \<and> typeof_object tv \<and> \<not> isArray tv
                 then (case mergeConfig ov tv of Inl e \<Rightarrow> v | Inr merged \<Rightarrow> merged)
                 else v))"

lemma forEach_key_step:
  assumes defined: "originConfig \<noteq> JUndefined" "originConfig \<noteq> JNull"
      "targetConfig \<noteq> JUndefined" "targetConfig \<noteq> JNull"
    and m: "distinct (map fst m)" "key \<in> fst ` set m"
  shows "forEach_key originConfig targetConfig (key # keys) m =
     forEach_key originConfig targetConfig keys
       (map (\<lambda>(k, x). if k = key then (k, merged_value originConfig targetConfig key x) else (k, x)) m)"
proof -
  from get_prop_defined [OF defined(1,2)] obtain ov where ov: "get_prop originConfig key = Inr ov"
    by blast
  from get_prop_defined [OF defined(3,4)] obtain tv where tv: "get_prop targetConfig key = Inr tv"
    by blast
  let ?m1 = "map (\<lambda>(k, x).
      if k = key then (k, merged_value originConfig targetConfig key x) else (k, x)) m"
  show ?thesis
  proof (cases "truthy ov \<and> truthy tv \<and> typeof_object tv \<and> \<not> isArray tv")
    case False
    with ov tv have "merged_value originConfig targetConfig key x = x" for x
      by (auto simp: merged_value_def)
    then have "?m1 = m" by (intro map_idI) auto
    moreover from False ov tv
    have "forEach_key originConfig targetConfig (key # keys) m =
        forEach_key originConfig targetConfig keys m" by auto
    ultimately show ?thesis by simp
  next
    case True
    with truthy_defined mergeConfig_returns_record(1) [of ov tv]
    obtain kvs where merged: "mergeConfig ov tv = Inr (JObj kvs)" by blast
    with True ov tv have "merged_value originConfig targetConfig key x = JObj kvs" for x
      by (simp add: merged_value_def)
    then have "?m1 = map (\<lambda>(k, x). if k = key then (k, JObj kvs) else (k, x)) m"
      by (intro map_cong refl) auto
    with set_prop_map [OF m, of "JObj kvs"] have "?m1 = set_prop m key (JObj kvs)" by simp
    moreover from True ov tv merged
    have "forEach_key originConfig targetConfig (key # keys) m =
        forEach_key originConfig targetConfig keys (set_prop m key (JObj kvs))" by simp
    ultimately show ?thesis by simp
  qed
qed

lemma forEach_key_closed:
  assumes defined: "originConfig \<noteq> JUndefined" "originConfig \<noteq> JNull"
      "targetConfig \<noteq> JUndefined" "targetConfig \<noteq> JNull"
  shows "distinct keys \<Longrightarrow> distinct (map fst m) \<Longrightarrow> set keys \<subseteq> fst ` set m \<Longrightarrow>
     forEach_key originConfig targetConfig keys m =
       Inr (JObj (map (\<lambda>(k, x).
         (k, if k \<in> set keys then merged_value originConfig targetConfig k x else x)) m))"
proof (induction keys arbitrary: m)
  case Nil
  have "map (\<lambda>(k, x). (k, x)) m = m" by (intro map_idI) auto
  then show ?case by simp
next
  case (Cons key keys)
  let ?m1 = "map (\<lambda>(k, x).
      if k = key then (k, merged_value originConfig targetConfig key x) else (k, x)) m"
  have fst1: "map fst ?m1 = map fst m" by (auto simp: case_prod_beta)
  from Cons.prems have "key \<in> fst ` set m" by simp
  with Cons.prems(2) have "forEach_key originConfig targetConfig (key # keys) m =
      forEach_key originConfig targetConfig keys ?m1"
    by (intro forEach_key_step defined)
  also have "\<dots> = Inr (JObj (map (\<lambda>(k, x).
         (k, if k \<in> set keys then merged_value originConfig targetConfig k x else x)) ?m1))"
  proof (rule Cons.IH)
    show "distinct keys" using Cons.prems(1) by simp
    show "distinct (map fst ?m1)" using Cons.prems(2) by (simp only: fst1)
    have "fst ` set ?m1 = fst ` set m" using fst1 by (metis list.set_map)
    with Cons.prems(3) show "set keys \<subseteq> fst ` set ?m1" by simp
  qed
  also have "map (\<lambda>(k, x).
         (k, if k \<in> set keys then merged_value originConfig targetConfig k x else x)) ?m1 =
      map (\<lambda>(k, x).
         (k, if k \<in> set (key # keys) then merged_value originConfig targetConfig k x else x)) m"
    using Cons.prems(1) by (auto simp: case_prod_beta)
  finally show ?case .
qed

lemma mergeConfig_closed:
  assumes "originConfig \<noteq> JUndefined" "originConfig \<noteq> JNull"
      "targetConfig \<noteq> JUndefined" "targetConfig \<noteq> JNull"
  shows "mergeConfig originConfig targetConfig =
     Inr (JObj (map (\<lambda>(k, x). (k, merged_value originConfig targetConfig k x))
       (assign (assign [] (own_props originConfig)) (own_props targetConfig))))"
proof -
  let ?m = "assign (assign [] (own_props originConfig)) (own_props targetConfig)"
  have distinct: "distinct (map fst ?m)"
    by (intro assign_distinct) simp
  have "mergeConfig originConfig targetConfig =
      forEach_key originConfig targetConfig (map fst ?m) ?m"
    by (simp add: mergeConfig.simps Let_def)
  also have "\<dots> = Inr (JObj (map (\<lambda>(k, x).
      (k, if k \<in> set (map fst ?m) then merged_value originConfig targetConfig k x else x)) ?m))"
    using distinct by (intro forEach_key_closed assms) simp_all
  also have "map (\<lambda>(k, x).
      (k, if k \<in> set (map fst ?m) then merged_value originConfig targetConfig k x else x)) ?m =
      map (\<lambda>(k, x). (k, merged_value originConfig targetConfig k x)) ?m"
    by (intro map_cong refl) force
  finally show ?thesis .
qed

lemma record_test: "truthy tv \<and> typeof_object tv \<and> \<not> isArray tv \<longleftrightarrow> (\<exists>kvs. tv = JObj kvs)"
  by (cases tv) simp_all

lemma unboxed_own_props:
  "unboxed v \<Longrightarrow> own_props v = fields v"
  by (cases v) (simp_all add: indexed_def)

lemma unboxed_get_prop:
  assumes "unboxed v" and "v \<noteq> JUndefined" and "v \<noteq> JNull"
  shows "\<exists>g. get_prop v key = Inr g \<and>
     (case map_of (fields v) key of None \<Rightarrow> \<not> truthy g | Some ov \<Rightarrow> g = ov)"
  using assms by (cases v) (simp_all add: lookup_def indexed_def split: option.splits)

lemma mergeConfig_spec_no_fields:
  assumes "fields origin = []" and "distinct (map fst tkvs)"
  shows "mergeConfig_spec origin (JObj tkvs) = JObj tkvs"
proof -
  have "map (\<lambda>(key, v). (key, v)) tkvs = tkvs" by (intro map_idI) auto
  with assms show ?thesis
    by (simp add: mergeConfig_spec.simps assign_def [of "[]" "[]"] assign_empty)
qed

lemma falsy_no_fields: "\<not> truthy v \<Longrightarrow> fields v = []"
  by (cases v) simp_all

lemma mergeable_entry:
  assumes "mergeable origin (JObj tkvs)" and "map_of (fields origin) key = Some ov"
    and "(key, JObj tkvs') \<in> set tkvs"
  shows "unboxed ov \<and> mergeable ov (JObj tkvs')"
  using assms by (auto simp: mergeable.simps [of origin] list_all_iff)

lemma distinct_keys_entry:
  "distinct_keys (JObj tkvs) \<Longrightarrow> (key, tv) \<in> set tkvs \<Longrightarrow> distinct_keys tv"
  by (auto simp: list_all_iff)

text \<open>
  Where no non-empty string and no non-empty array stands in the origin under a key
  whose target value is a record, the code computes the merge of the spec (for keys
  that name own properties: lookup of inherited members is not modelled).
\<close>

lemma mergeConfig_refines_spec:
  "unboxed origin \<longrightarrow> origin \<noteq> JUndefined \<longrightarrow> origin \<noteq> JNull \<longrightarrow>
   (\<exists>tkvs. target = JObj tkvs) \<longrightarrow> distinct_keys target \<longrightarrow> mergeable origin target \<longrightarrow>
   mergeConfig origin target = Inr (mergeConfig_spec origin target)"
proof (induction origin target rule: mergeConfig_spec.induct)
  case (1 origin target)
  show ?case
  proof (intro impI)
    assume unboxed: "unboxed origin" and defined: "origin \<noteq> JUndefined" "origin \<noteq> JNull"
      and "\<exists>tkvs. target = JObj tkvs" and keys: "distinct_keys target"
      and mergeable: "mergeable origin target"
    then obtain tkvs where target: "target = JObj tkvs" by blast
    let ?m = "assign (assign [] (fields origin)) tkvs"
    from keys target have dt: "distinct (map fst tkvs)" by simp
    have dm: "distinct (map fst ?m)" by (intro assign_distinct) simp
    have lookup_m: "map_of ?m = map_of (assign [] (fields origin)) ++ map_of tkvs"
      using dt by (rule map_of_assign)
    have entry: "merged_value origin target k x =
        (case map_of (fields origin) k of
           None \<Rightarrow> x
         | Some ov \<Rightarrow>
             (case map_of (fields target) k of
                Some (JObj tkvs') \<Rightarrow> mergeConfig_spec ov (JObj tkvs')
              | _ \<Rightarrow> x))" if kx: "(k, x) \<in> set ?m" for k x
    proof -
      from unboxed_get_prop [OF unboxed defined, of k] obtain g
        where g: "get_prop origin k = Inr g"
          and g_field: "case map_of (fields origin) k of None \<Rightarrow> \<not> truthy g | Some ov \<Rightarrow> g = ov"
        by blast
      have tv: "get_prop target k = Inr (lookup tkvs k)" by (simp add: target)
      show ?thesis
      proof (cases "map_of (fields origin) k")
        case None
        with g g_field show ?thesis by (simp add: merged_value_def)
      next
        case (Some ov)
        with g_field have g_ov: "g = ov" by simp
        show ?thesis
        proof (cases "\<exists>tkvs'. map_of tkvs k = Some (JObj tkvs')")
          case False
          then have "\<not> (truthy (lookup tkvs k) \<and> typeof_object (lookup tkvs k) \<and>
              \<not> isArray (lookup tkvs k))"
            by (auto simp: record_test lookup_def split: option.splits)
          with g tv have "merged_value origin target k x = x"
            by (auto simp: merged_value_def)
          with False Some show ?thesis
            by (auto simp: target split: option.splits jsval.splits)
        next
          case True
          then obtain tkvs' where t': "map_of tkvs k = Some (JObj tkvs')" by blast
          then have in_t: "(k, JObj tkvs') \<in> set tkvs" by (rule map_of_SomeD)
          from distinct_keys_entry [OF keys [unfolded target] in_t]
          have keys': "distinct_keys (JObj tkvs')" .
          from t' have look: "lookup tkvs k = JObj tkvs'" by (simp add: lookup_def)
          show ?thesis
          proof (cases "truthy ov")
            case False
            with g g_ov have "merged_value origin target k x = x"
              by (simp add: merged_value_def)
            moreover from kx dm have "map_of ?m k = Some x" by simp
            with lookup_m t' have "x = JObj tkvs'" by simp
            moreover from False keys' have "mergeConfig_spec ov (JObj tkvs') = JObj tkvs'"
              by (intro mergeConfig_spec_no_fields falsy_no_fields) simp_all
            ultimately show ?thesis using Some t' by (simp add: target)
          next
            case truthy: True
            from mergeable_entry [OF mergeable [unfolded target] Some in_t]
            have "unboxed ov" and "mergeable ov (JObj tkvs')" by simp_all
            moreover from kx have kx': "(k, x) \<in> set (assign (assign [] (fields origin)) (fields target))"
              by (simp add: target)
            moreover from t' have t'': "map_of (fields target) k = Some (JObj tkvs')"
              by (simp add: target)
            ultimately have "mergeConfig ov (JObj tkvs') = Inr (mergeConfig_spec ov (JObj tkvs'))"
              using "1.IH" [OF kx' refl Some t'' refl] truthy_defined [OF truthy] keys'
              by simp
            with g g_ov tv look truthy have "merged_value origin target k x =
                mergeConfig_spec ov (JObj tkvs')"
              by (simp add: merged_value_def)
            with Some t' show ?thesis by (simp add: target)
          qed
        qed
      qed
    qed
    have "mergeConfig origin target =
        Inr (JObj (map (\<lambda>(k, x). (k, merged_value origin target k x)) ?m))"
      using mergeConfig_closed [of origin target] defined unboxed
      by (simp add: target unboxed_own_props)
    also have "map (\<lambda>(k, x). (k, merged_value origin target k x)) ?m =
        map (\<lambda>(key, v).
             (key,
              case map_of (fields origin) key of
                None \<Rightarrow> v
              | Some ov \<Rightarrow>
                  (case map_of (fields target) key of
                     Some (JObj tkvs) \<Rightarrow> mergeConfig_spec ov (JObj tkvs)
                   | _ \<Rightarrow> v))) ?m"
      using entry by (intro map_cong refl) auto
    also have "JObj \<dots> = mergeConfig_spec origin target"
      unfolding target mergeConfig_spec.simps [of origin "JObj tkvs"] fields.simps ..
    finally show "mergeConfig origin target = Inr (mergeConfig_spec origin target)" .
  qed
qed

lemma mergeConfig_on_records:
  assumes "distinct_keys (JObj tkvs)" and "mergeable (JObj okvs) (JObj tkvs)"
  shows "mergeConfig (JObj okvs) (JObj tkvs) = Inr (mergeConfig_spec (JObj okvs) (JObj tkvs))"
  using assms mergeConfig_refines_spec [of "JObj okvs" "JObj tkvs"] by simp

text \<open>
  The argument of \<open>updateConfig\<close>: the merged configuration, and the new data under
  \<^verbatim>\<open>data\<close> unless the merged configuration has a \<^verbatim>\<open>data\<close> of its own.
\<close>

lemma with_data_fields:
  "distinct (map fst kvs) \<Longrightarrow>
   map_of (fields (with_data d (JObj kvs))) = [''data'' \<mapsto> d] ++ map_of kvs"
  by (simp add: with_data_def map_of_assign)

text \<open>
  C3. An origin value that is a non-empty string, under a key whose target value is a
  record: by the rule of the spec the target's record replaces the string. In the code
  the origin value is only tested for truthiness, so the merge recurses on the string
  and the record, and \<^verbatim>\<open>Object.assign({}, 'dark', {b: 2})\<close> copies the characters of
  the boxed string under their indices into the result.
\<close>

theorem mergeConfig_string_origin:
  "mergeConfig (JObj [(''theme'', JStr ''dark'')]) (JObj [(''theme'', JObj [(''b'', JNum 2)])]) =
     Inr (JObj [(''theme'',
       JObj [(''0'', JStr ''d''), (''1'', JStr ''a''), (''2'', JStr ''r''), (''3'', JStr ''k''),
             (''b'', JNum 2)])]) \<and>
   mergeConfig_spec (JObj [(''theme'', JStr ''dark'')]) (JObj [(''theme'', JObj [(''b'', JNum 2)])]) =
     JObj [(''theme'', JObj [(''b'', JNum 2)])]"
  by (simp add: mergeConfig.simps mergeConfig_spec.simps assign_def set_prop_def lookup_def
      indexed_def index_key.simps digit_char_def upt_rec)

text \<open>The same happens with a non-empty array as the origin value.\<close>

lemma mergeConfig_array_origin:
  "mergeConfig (JObj [(''a'', JArr [JNum 1, JNum 2])]) (JObj [(''a'', JObj [(''b'', JNum 3)])]) =
     Inr (JObj [(''a'', JObj [(''0'', JNum 1), (''1'', JNum 2), (''b'', JNum 3)])]) \<and>
   mergeConfig_spec (JObj [(''a'', JArr [JNum 1, JNum 2])]) (JObj [(''a'', JObj [(''b'', JNum 3)])]) =
     JObj [(''a'', JObj [(''b'', JNum 3)])]"
  by (simp add: mergeConfig.simps mergeConfig_spec.simps assign_def set_prop_def lookup_def
      indexed_def index_key.simps digit_char_def upt_rec)

text \<open>
  Where no non-empty string and no non-empty array stands in the origin under a key
  whose target value is a record, \<open>formatMergeConfig\<close> is the merge of the spec, followed
  by the formatter when one is given.
\<close>

lemma formatMergeConfig_on_records:
  assumes "distinct_keys (JObj tkvs)" and "mergeable (JObj okvs) (JObj tkvs)"
  shows "formatMergeConfig (JObj okvs) (JObj tkvs) formatter =
     (case formatter of
        None \<Rightarrow> Inr (mergeConfig_spec (JObj okvs) (JObj tkvs))
      | Some f \<Rightarrow> f (mergeConfig_spec (JObj okvs) (JObj tkvs)))"
  using mergeConfig_on_records [OF assms]
  by (simp add: formatMergeConfig_def)

text \<open>
  C4. The first step of \<open>formatMergeConfig\<close> is \<open>mergeConfig\<close>, and so it is not the
  merge of the spec where \<open>mergeConfig\<close> is not: on a non-empty string in the origin
  under a key whose target value is a record, the result without a formatter, and the
  configuration that a formatter receives (here a formatter that returns what it is
  given), hold the characters of the string under their indices, where the rule of the
  spec gives the target's record alone.
\<close>

theorem formatMergeConfig_string_origin:
  "formatMergeConfig (JObj [(''theme'', JStr ''dark'')]) (JObj [(''theme'', JObj [(''b'', JNum 2)])])
     None =
     Inr (JObj [(''theme'',
       JObj [(''0'', JStr ''d''), (''1'', JStr ''a''), (''2'', JStr ''r''), (''3'', JStr ''k''),
             (''b'', JNum 2)])]) \<and>
   formatMergeConfig (JObj [(''theme'', JStr ''dark'')]) (JObj [(''theme'', JObj [(''b'', JNum 2)])])
     (Some Inr) =
     Inr (JObj [(''theme'',
       JObj [(''0'', JStr ''d''), (''1'', JStr ''a''), (''2'', JStr ''r''), (''3'', JStr ''k''),
             (''b'', JNum 2)])]) \<and>
   mergeConfig_spec (JObj [(''theme'', JStr ''dark'')]) (JObj [(''theme'', JObj [(''b'', JNum 2)])]) =
     JObj [(''theme'', JObj [(''b'', JNum 2)])]"
  by (simp add: formatMergeConfig_def mergeConfig.simps mergeConfig_spec.simps assign_def
      set_prop_def lookup_def indexed_def index_key.simps digit_char_def upt_rec)

section \<open>mergeConfig on a store of objects\<close>

text \<open>
  Whether \<^verbatim>\<open>mergeConfig\<close> writes into its arguments cannot be read off the trees
  above, so the function is modelled a second time on a store: a value is a primitive
  or the address of an object, an object is a record or an array of values, and the
  store is the list of the objects allocated so far (an address is an index;
  \<^verbatim>\<open>Object.assign({}, ...)\<close> allocates at the end). Objects are not collected, and
  every address in a value of the program is below the length of the store; a
  lookup at another address finds no property.
\<close>

type_synonym addr = nat

datatype ref_val = RUndefined | RNull | RBool bool | RNum int | RStr string | RRef addr

datatype heap_obj = HRecord "(string \<times> ref_val) list" | HArray "ref_val list"

type_synonym heap = "heap_obj list"

fun truthy_ref :: "ref_val \<Rightarrow> bool" where
  "truthy_ref RUndefined = False"
| "truthy_ref RNull = False"
| "truthy_ref (RBool b) = b"
| "truthy_ref (RNum n) = (n \<noteq> 0)"
| "truthy_ref (RStr s) = (s \<noteq> [])"
| "truthy_ref (RRef a) = True"

fun typeof_object_ref :: "ref_val \<Rightarrow> bool" where
  "typeof_object_ref RNull = True"
| "typeof_object_ref (RRef a) = True"
| "typeof_object_ref v = False"

fun isArray_ref :: "heap \<Rightarrow> ref_val \<Rightarrow> bool" where
  "isArray_ref h (RRef a) =
     (a < length h \<and> (case h ! a of HArray xs \<Rightarrow> True | HRecord kvs \<Rightarrow> False))"
| "isArray_ref h v = False"

fun props_of :: "heap_obj \<Rightarrow> (string \<times> ref_val) list" where
  "props_of (HRecord kvs) = kvs"
| "props_of (HArray xs) = indexed xs"

fun own_props_ref :: "heap \<Rightarrow> ref_val \<Rightarrow> (string \<times> ref_val) list" where
  "own_props_ref h (RRef a) = (if a < length h then props_of (h ! a) else [])"
| "own_props_ref h (RStr s) = indexed (map (\<lambda>c. RStr [c]) s)"
| "own_props_ref h v = []"

definition lookup_ref :: "(string \<times> ref_val) list \<Rightarrow> string \<Rightarrow> ref_val" where
  "lookup_ref kvs key = (case map_of kvs key of None \<Rightarrow> RUndefined | Some v \<Rightarrow> v)"

fun get_prop_ref :: "heap \<Rightarrow> ref_val \<Rightarrow> string \<Rightarrow> exn + ref_val" where
  "get_prop_ref h RUndefined key = Inl TypeError"
| "get_prop_ref h RNull key = Inl TypeError"
| "get_prop_ref h (RRef a) key =
     Inr (if a < length h
          then (case h ! a of
                  HRecord kvs \<Rightarrow> lookup_ref kvs key
                | HArray xs \<Rightarrow>
                    if key = ''length'' then RNum (int (length xs))
                    else lookup_ref (indexed xs) key)
          else RUndefined)"
| "get_prop_ref h (RStr s) key =
     Inr (if key = ''length'' then RNum (int (length s))
          else lookup_ref (indexed (map (\<lambda>c. RStr [c]) s)) key)"
| "get_prop_ref h v key = Inr RUndefined"

text \<open>\<^verbatim>\<open>obj[key] = v\<close> for the record at an address (the only write of \<^verbatim>\<open>mergeConfig\<close>).\<close>

definition write_prop :: "heap \<Rightarrow> addr \<Rightarrow> string \<Rightarrow> ref_val \<Rightarrow> heap" where
  "write_prop h a key v =
     (case h ! a of
        HRecord kvs \<Rightarrow> h[a := HRecord (set_prop kvs key v)]
      | HArray xs \<Rightarrow> h)"

text \<open>
  The recursion of \<^verbatim>\<open>mergeConfig\<close> follows the target, which on a store can contain
  itself; the engine then ends the call with a RangeError when the stack is full. The
  first argument bounds the depth of the calls: \<open>None\<close> is a call that needs more.
  An exception is returned with the store it leaves.
\<close>

fun mergeConfig_ref :: "nat \<Rightarrow> ref_val \<Rightarrow> ref_val \<Rightarrow> heap \<Rightarrow> ((exn + ref_val) \<times> heap) option"
  and forEach_key_ref ::
    "nat \<Rightarrow> ref_val \<Rightarrow> ref_val \<Rightarrow> addr \<Rightarrow> string list \<Rightarrow> heap \<Rightarrow> ((exn + unit) \<times> heap) option"
where
  "mergeConfig_ref 0 originConfig targetConfig h = None"
| "mergeConfig_ref (Suc n) originConfig targetConfig h =
     (let modifiedObj = length h;
          h1 = h @ [HRecord (assign (assign [] (own_props_ref h originConfig))
                      (own_props_ref h targetConfig))]
      in case forEach_key_ref n originConfig targetConfig modifiedObj
                (map fst (props_of (h1 ! modifiedObj))) h1 of
           None \<Rightarrow> None
         | Some (Inl e, h2) \<Rightarrow> Some (Inl e, h2)
         | Some (Inr u, h2) \<Rightarrow> Some (Inr (RRef modifiedObj), h2))"
| "forEach_key_ref n originConfig targetConfig modifiedObj [] h = Some (Inr (), h)"
| "forEach_key_ref n originConfig targetConfig modifiedObj (key # keys) h =
     (case get_prop_ref h originConfig key of
        Inl e \<Rightarrow> Some (Inl e, h)
      | Inr ov \<Rightarrow>
          if \<not> truthy_ref ov then forEach_key_ref n originConfig targetConfig modifiedObj keys h
          else
            (case get_prop_ref h targetConfig key of
               Inl e \<Rightarrow> Some (Inl e, h)
             | Inr tv \<Rightarrow>
                 if truthy_ref tv \<and> typeof_object_ref tv \<and> \<not> isArray_ref h tv
                 then
                   (case mergeConfig_ref n ov tv h of
                      None \<Rightarrow> None
                    | Some (Inl e, h') \<Rightarrow> Some (Inl e, h')
                    | Some (Inr merged, h') \<Rightarrow>
                        forEach_key_ref n originConfig targetConfig modifiedObj keys
                          (write_prop h' modifiedObj key merged))
                 else forEach_key_ref n originConfig targetConfig modifiedObj keys h))"

text \<open>
  The tree that a value stands for in a store, read to a bounded depth: \<open>None\<close> when
  the value reaches deeper, or reaches an address outside the store.
\<close>

fun reify :: "nat \<Rightarrow> heap \<Rightarrow> ref_val \<Rightarrow> jsval option" where
  "reify n h RUndefined = Some JUndefined"
| "reify n h RNull = Some JNull"
| "reify n h (RBool b) = Some (JBool b)"
| "reify n h (RNum i) = Some (JNum i)"
| "reify n h (RStr s) = Some (JStr s)"
| "reify 0 h (RRef a) = None"
| "reify (Suc n) h (RRef a) =
     (if a < length h
      then (case h ! a of
              HRecord kvs \<Rightarrow>
                map_option JObj (those (map (\<lambda>(k, v). map_option (Pair k) (reify n h v)) kvs))
            | HArray xs \<Rightarrow> map_option JArr (those (map (reify n h) xs)))
      else None)"

lemma write_prop_length [simp]: "length (write_prop h a key v) = length h"
  by (simp add: write_prop_def split: heap_obj.splits)

lemma write_prop_other: "b \<noteq> a \<Longrightarrow> write_prop h a key v ! b = h ! b"
  by (simp add: write_prop_def split: heap_obj.splits)

lemma write_prop_record:
  "a < length h \<Longrightarrow> h ! a = HRecord kvs \<Longrightarrow> \<exists>kvs'. write_prop h a key v ! a = HRecord kvs'"
  by (simp add: write_prop_def)

text \<open>
  A call changes no object that was in the store before it; the loop over the keys
  changes only the record it was given.
\<close>

lemma mergeConfig_ref_frame:
  "\<forall>res h'. mergeConfig_ref n originConfig targetConfig h = Some (res, h') \<longrightarrow>
     length h \<le> length h' \<and> take (length h) h' = h \<and>
     (\<forall>r. res = Inr r \<longrightarrow>
        r = RRef (length h) \<and> length h < length h' \<and> (\<exists>kvs. h' ! length h = HRecord kvs))"
  "\<forall>res h'. forEach_key_ref n originConfig targetConfig modifiedObj keys h = Some (res, h') \<longrightarrow>
     length h \<le> length h' \<and>
     (\<forall>a < length h. a \<noteq> modifiedObj \<longrightarrow> h' ! a = h ! a) \<and>
     (modifiedObj < length h \<and> (\<exists>kvs. h ! modifiedObj = HRecord kvs) \<longrightarrow>
        (\<exists>kvs. h' ! modifiedObj = HRecord kvs))"
proof (induction n originConfig targetConfig h and n originConfig targetConfig modifiedObj keys h
    rule: mergeConfig_ref_forEach_key_ref.induct)
  case (1 originConfig targetConfig h)
  show ?case by simp
next
  case (2 n originConfig targetConfig h)
  let ?h1 = "h @ [HRecord (assign (assign [] (own_props_ref h originConfig))
      (own_props_ref h targetConfig))]"
  let ?loop = "forEach_key_ref n originConfig targetConfig (length h)
      (map fst (props_of (?h1 ! length h))) ?h1"
  show ?case
  proof (intro allI impI)
    fix res h'
    assume call: "mergeConfig_ref (Suc n) originConfig targetConfig h = Some (res, h')"
    then obtain res' where loop: "?loop = Some (res', h')"
      and res: "res = (case res' of Inl e \<Rightarrow> Inl e | Inr u \<Rightarrow> Inr (RRef (length h)))"
      by (auto simp: Let_def split: option.splits sum.splits)
    from "2.IH" [OF refl refl] loop
    have len: "length ?h1 \<le> length h'"
      and same: "\<forall>a < length ?h1. a \<noteq> length h \<longrightarrow> h' ! a = ?h1 ! a"
      and rec: "\<exists>kvs. h' ! length h = HRecord kvs"
      by auto
    from len have len': "length h < length h'" by simp
    have "take (length h) h' = h"
    proof (rule nth_equalityI)
      show "length (take (length h) h') = length h" using len' by simp
    next
      fix a assume "a < length (take (length h) h')"
      then have a: "a < length h" by simp
      with same have "h' ! a = ?h1 ! a" by simp
      with a show "take (length h) h' ! a = h ! a" by (simp add: nth_append)
    qed
    with len' rec res show "length h \<le> length h' \<and> take (length h) h' = h \<and>
     (\<forall>r. res = Inr r \<longrightarrow>
        r = RRef (length h) \<and> length h < length h' \<and> (\<exists>kvs. h' ! length h = HRecord kvs))"
      by (auto split: sum.splits)
  qed
next
  case (3 n originConfig targetConfig modifiedObj h)
  show ?case by simp
next
  case (4 n originConfig targetConfig modifiedObj key keys h)
  let ?goal = "\<lambda>res h'. length h \<le> length h' \<and>
     (\<forall>a < length h. a \<noteq> modifiedObj \<longrightarrow> h' ! a = h ! a) \<and>
     (modifiedObj < length h \<and> (\<exists>kvs. h ! modifiedObj = HRecord kvs) \<longrightarrow>
        (\<exists>kvs. h' ! modifiedObj = HRecord kvs))"
  show ?case
  proof (intro allI impI)
    fix res h'
    assume call: "forEach_key_ref n originConfig targetConfig modifiedObj (key # keys) h =
        Some (res, h')"
    show "?goal res h'"
    proof (cases "get_prop_ref h originConfig key")
      case (Inl e)
      with call show ?thesis by auto
    next
      case ov: (Inr ov)
      show ?thesis
      proof (cases "truthy_ref ov")
        case False
        with call ov "4.IH"(1) [OF ov] show ?thesis by simp
      next
        case True
        show ?thesis
        proof (cases "get_prop_ref h targetConfig key")
          case (Inl e)
          with call ov True show ?thesis by auto
        next
          case tv: (Inr tv)
          show ?thesis
          proof (cases "truthy_ref tv \<and> typeof_object_ref tv \<and> \<not> isArray_ref h tv")
            case False
            with call ov True tv "4.IH"(4) [OF ov _ tv] show ?thesis by auto
          next
            case merge: True
            show ?thesis
            proof (cases "mergeConfig_ref n ov tv h")
              case None
              with call ov True tv merge show ?thesis by simp
            next
              case (Some result)
              obtain res1 h1 where result: "result = (res1, h1)" by (cases result)
              from "4.IH"(2) [OF ov _ tv] True merge Some result
              have len1: "length h \<le> length h1" and keep1: "take (length h) h1 = h"
                by auto
              have old1: "h1 ! a = h ! a" if "a < length h" for a
                using that keep1 by (metis nth_take)
              show ?thesis
              proof (cases res1)
                case (Inl e)
                with call ov True tv merge Some result have "h' = h1" by simp
                with len1 old1 show ?thesis by auto
              next
                case (Inr merged)
                let ?h2 = "write_prop h1 modifiedObj key merged"
                from Inr call ov True tv merge Some result
                have rest: "forEach_key_ref n originConfig targetConfig modifiedObj keys ?h2 =
                    Some (res, h')" by simp
                from "4.IH"(3) [OF ov _ tv _ Some [unfolded result] _ _ ] True merge Inr rest
                have len2: "length ?h2 \<le> length h'"
                  and keep2: "\<forall>a < length ?h2. a \<noteq> modifiedObj \<longrightarrow> h' ! a = ?h2 ! a"
                  and rec2: "modifiedObj < length ?h2 \<and> (\<exists>kvs. ?h2 ! modifiedObj = HRecord kvs) \<longrightarrow>
                    (\<exists>kvs. h' ! modifiedObj = HRecord kvs)"
                  by auto
                have "length h \<le> length h'" using len1 len2 by simp
                moreover have "\<forall>a < length h. a \<noteq> modifiedObj \<longrightarrow> h' ! a = h ! a"
                  using keep2 len1 old1 by (auto simp: write_prop_other)
                moreover have "\<exists>kvs. h' ! modifiedObj = HRecord kvs"
                  if m: "modifiedObj < length h" and "\<exists>kvs. h ! modifiedObj = HRecord kvs"
                proof -
                  from that old1 [OF m] obtain kvs where "h1 ! modifiedObj = HRecord kvs" by auto
                  moreover from m len1 have "modifiedObj < length h1" by simp
                  ultimately have "\<exists>kvs. ?h2 ! modifiedObj = HRecord kvs"
                    by (rule write_prop_record [rotated])
                  with rec2 m len1 show ?thesis by simp
                qed
                ultimately show ?thesis by blast
              qed
            qed
          qed
        qed
      qed
    qed
  qed
qed

lemma those_Some: "those xs = Some ys \<Longrightarrow> \<forall>x \<in> set xs. \<exists>y. x = Some y"
  by (induction xs arbitrary: ys) (auto split: option.splits)

lemma lookup_ref_cases:
  "lookup_ref kvs key = RUndefined \<or> (key, lookup_ref kvs key) \<in> set kvs"
  by (auto simp: lookup_ref_def dest: map_of_SomeD split: option.splits)

lemma take_same_length:
  assumes "take (length h0) h = h0"
  shows "length h0 \<le> length h"
proof -
  from assms have "length (take (length h0) h) = length h0" by simp
  then show ?thesis by simp
qed

lemma take_same_nth: "take (length h0) h = h0 \<Longrightarrow> a < length h0 \<Longrightarrow> h ! a = h0 ! a"
  by (metis nth_take)

text \<open>The values of an object that is read to a bounded depth are read one level less deep.\<close>

lemma reify_child:
  assumes "reify n h (RRef a) = Some tree"
  shows "\<exists>k. n = Suc k \<and> a < length h \<and>
     (\<forall>v \<in> snd ` set (props_of (h ! a)). \<exists>x. reify k h v = Some x)"
proof (cases n)
  case 0
  with assms show ?thesis by simp
next
  case (Suc k)
  with assms have a: "a < length h" by (simp split: if_splits)
  have "\<exists>x. reify k h v = Some x" if "v \<in> snd ` set (props_of (h ! a))" for v
  proof (cases "h ! a")
    case (HRecord kvs)
    with assms Suc a obtain ys
      where "those (map (\<lambda>(key, v). map_option (Pair key) (reify k h v)) kvs) = Some ys"
      by auto
    from those_Some [OF this] that HRecord show ?thesis by fastforce
  next
    case (HArray xs)
    with assms Suc a obtain ys where "those (map (reify k h) xs) = Some ys" by auto
    from those_Some [OF this] have "\<forall>v \<in> set xs. \<exists>y. reify k h v = Some y" by auto
    moreover from that HArray have "v \<in> set xs"
      by (auto simp: indexed_def dest: set_zip_rightD)
    ultimately show ?thesis by blast
  qed
  with Suc a show ?thesis by blast
qed

lemma get_prop_ref_child:
  assumes "get_prop_ref h t key = Inr (RRef b)"
  shows "\<exists>a. t = RRef a \<and> a < length h \<and> RRef b \<in> snd ` set (props_of (h ! a))"
proof (cases t)
  case (RRef a)
  with assms have a: "a < length h" by (simp split: if_splits)
  show ?thesis
  proof (cases "h ! a")
    case (HRecord kvs)
    with assms RRef a lookup_ref_cases [of kvs key] have "(key, RRef b) \<in> set kvs" by auto
    with RRef a HRecord show ?thesis by force
  next
    case (HArray xs)
    with assms RRef a lookup_ref_cases [of "indexed xs" key]
    have "(key, RRef b) \<in> set (indexed xs)" by (auto split: if_splits)
    with RRef a HArray show ?thesis by force
  qed
next
  case (RStr s)
  with assms lookup_ref_cases [of "indexed (map (\<lambda>c. RStr [c]) s)" key] show ?thesis
    by (auto simp: indexed_def split: if_splits dest!: set_zip_rightD)
qed (use assms in auto)

lemma reify_extend:
  "reify n h v = Some tree \<Longrightarrow> take (length h) h' = h \<Longrightarrow> reify n h' v = Some tree"
proof (induction n arbitrary: v tree)
  case 0
  then show ?case by (cases v) simp_all
next
  case (Suc n)
  show ?case
  proof (cases v)
    case (RRef a)
    from Suc.prems(1) RRef have a: "a < length h" by (simp split: if_splits)
    with Suc.prems(2) have a': "a < length h'" and same: "h' ! a = h ! a"
      using take_same_length [of h h'] take_same_nth [of h h' a] by simp_all
    from reify_child [of "Suc n" h a tree] Suc.prems(1) RRef
    have children: "\<forall>v \<in> snd ` set (props_of (h ! a)). \<exists>x. reify n h v = Some x" by simp
    have eq: "reify n h' w = reify n h w" if "w \<in> snd ` set (props_of (h ! a))" for w
    proof -
      from children that obtain x where "reify n h w = Some x" by blast
      with Suc.IH [OF this Suc.prems(2)] show ?thesis by simp
    qed
    show ?thesis
    proof (cases "h ! a")
      case (HRecord kvs)
      have "map (\<lambda>(key, w). map_option (Pair key) (reify n h' w)) kvs =
          map (\<lambda>(key, w). map_option (Pair key) (reify n h w)) kvs"
        using eq HRecord by (intro map_cong refl) force
      then have "reify (Suc n) h' (RRef a) = reify (Suc n) h (RRef a)"
        using a a' same HRecord by (simp del: map_eq_conv)
      with Suc.prems(1) RRef show ?thesis by simp
    next
      case (HArray xs)
      have "w \<in> snd ` set (indexed xs)" if "w \<in> set xs" for w
      proof -
        from that obtain i where "i < length xs" and "xs ! i = w" by (auto simp: in_set_conv_nth)
        then have "(index_key i, w) \<in> set (indexed xs)"
          by (auto simp: indexed_def set_zip intro!: exI [of _ i])
        then show ?thesis by force
      qed
      with eq HArray have "map (reify n h') xs = map (reify n h) xs"
        by (intro map_cong refl) simp
      then have "reify (Suc n) h' (RRef a) = reify (Suc n) h (RRef a)"
        using a a' same HArray by (simp del: map_eq_conv)
      with Suc.prems(1) RRef show ?thesis by simp
    qed
  qed (use Suc.prems in simp_all)
qed

lemma write_prop_take:
  "n \<le> a \<Longrightarrow> take n (write_prop h a key v) = take n h"
  by (simp add: write_prop_def split: heap_obj.splits)

lemma take_extended:
  assumes "take (length h0) h = h0" and "take (length h) h1 = h"
  shows "take (length h0) h1 = h0"
proof -
  from assms(1) have "length h0 \<le> length h" by (rule take_same_length)
  then have "take (length h0) h1 = take (length h0) (take (length h) h1)"
    by (simp add: min_def)
  with assms show ?thesis by simp
qed

text \<open>
  A call returns when its depth bound exceeds the depth to which the target can be read
  in a store \<open>h0\<close> that the current store extends.
\<close>

lemma mergeConfig_ref_returns:
  "\<forall>k tree. n = Suc k \<longrightarrow> reify k h0 targetConfig = Some tree \<longrightarrow> take (length h0) h = h0 \<longrightarrow>
     (\<exists>res h'. mergeConfig_ref n originConfig targetConfig h = Some (res, h'))"
  "\<forall>tree. reify n h0 targetConfig = Some tree \<longrightarrow> take (length h0) h = h0 \<longrightarrow>
     length h0 \<le> modifiedObj \<longrightarrow>
     (\<exists>res h'. forEach_key_ref n originConfig targetConfig modifiedObj keys h = Some (res, h'))"
proof (induction n originConfig targetConfig h and n originConfig targetConfig modifiedObj keys h
    rule: mergeConfig_ref_forEach_key_ref.induct)
  case (1 originConfig targetConfig h)
  show ?case by simp
next
  case (2 n originConfig targetConfig h)
  let ?h1 = "h @ [HRecord (assign (assign [] (own_props_ref h originConfig))
      (own_props_ref h targetConfig))]"
  show ?case
  proof (intro allI impI)
    fix k tree
    assume k: "Suc n = Suc k" and tree: "reify k h0 targetConfig = Some tree"
      and base: "take (length h0) h = h0"
    from base have le: "length h0 \<le> length h" by (rule take_same_length)
    with base have "take (length h0) ?h1 = h0" by simp
    with "2.IH" [OF refl refl] k tree le
    obtain res' h' where "forEach_key_ref n originConfig targetConfig (length h)
        (map fst (props_of (?h1 ! length h))) ?h1 = Some (res', h')" by blast
    then show "\<exists>res h'. mergeConfig_ref (Suc n) originConfig targetConfig h = Some (res, h')"
      by (cases res') (simp_all add: Let_def)
  qed
next
  case (3 n originConfig targetConfig modifiedObj h)
  show ?case by simp
next
  case (4 n originConfig targetConfig modifiedObj key keys h)
  show ?case
  proof (intro allI impI)
    fix tree
    assume tree: "reify n h0 targetConfig = Some tree" and base: "take (length h0) h = h0"
      and fresh: "length h0 \<le> modifiedObj"
    let ?thesis = "\<exists>res h'. forEach_key_ref n originConfig targetConfig modifiedObj (key # keys) h =
        Some (res, h')"
    show ?thesis
    proof (cases "get_prop_ref h originConfig key")
      case (Inl e)
      then show ?thesis by simp
    next
      case ov: (Inr ov)
      show ?thesis
      proof (cases "truthy_ref ov")
        case False
        with ov tree base fresh "4.IH"(1) [OF ov] show ?thesis by simp
      next
        case True
        show ?thesis
        proof (cases "get_prop_ref h targetConfig key")
          case (Inl e)
          with ov True show ?thesis by simp
        next
          case tv: (Inr tv)
          show ?thesis
          proof (cases "truthy_ref tv \<and> typeof_object_ref tv \<and> \<not> isArray_ref h tv")
            case False
            with ov True tv tree base fresh "4.IH"(4) [OF ov _ tv] show ?thesis by auto
          next
            case merge: True
            then obtain b where b: "tv = RRef b" by (cases tv) simp_all
            from get_prop_ref_child [OF tv [unfolded b]] obtain a
              where a: "targetConfig = RRef a" "a < length h"
                and child: "RRef b \<in> snd ` set (props_of (h ! a))" by blast
            from reify_child [OF tree [unfolded a(1)]] obtain k
              where k: "n = Suc k" and a0: "a < length h0"
                and children: "\<forall>v \<in> snd ` set (props_of (h0 ! a)). \<exists>x. reify k h0 v = Some x"
              by blast
            from take_same_nth [OF base a0] child children
            obtain x where "reify k h0 tv = Some x" by (auto simp: b)
            with "4.IH"(2) [OF ov _ tv] True merge k base
            obtain res1 h1 where call: "mergeConfig_ref n ov tv h = Some (res1, h1)" by blast
            show ?thesis
            proof (cases res1)
              case (Inl e)
              with ov True tv merge call show ?thesis by simp
            next
              case (Inr merged)
              from mergeConfig_ref_frame(1) [of n ov tv h] call
              have "take (length h) h1 = h" by blast
              with base have "take (length h0) h1 = h0" by (rule take_extended)
              with fresh have "take (length h0) (write_prop h1 modifiedObj key merged) = h0"
                by (simp add: write_prop_take)
              with "4.IH"(3) [OF ov _ tv _ call [unfolded Inr] refl] True merge tree fresh
              obtain res h' where "forEach_key_ref n originConfig targetConfig modifiedObj keys
                  (write_prop h1 modifiedObj key merged) = Some (res, h')" by blast
              with ov True tv merge call Inr show ?thesis by simp
            qed
          qed
        qed
      qed
    qed
  qed
qed

text \<open>On an origin and a target that are neither null nor undefined, a call that returns
  has not thrown.\<close>

lemma get_prop_ref_defined:
  "v \<noteq> RUndefined \<Longrightarrow> v \<noteq> RNull \<Longrightarrow> \<exists>x. get_prop_ref h v key = Inr x"
  by (cases v) simp_all

lemma truthy_ref_defined: "truthy_ref v \<Longrightarrow> v \<noteq> RUndefined \<and> v \<noteq> RNull"
  by (cases v) simp_all

lemma mergeConfig_ref_no_exception:
  "\<forall>res h'. originConfig \<noteq> RUndefined \<longrightarrow> originConfig \<noteq> RNull \<longrightarrow>
     targetConfig \<noteq> RUndefined \<longrightarrow> targetConfig \<noteq> RNull \<longrightarrow>
     mergeConfig_ref n originConfig targetConfig h = Some (res, h') \<longrightarrow> (\<exists>r. res = Inr r)"
  "\<forall>res h'. originConfig \<noteq> RUndefined \<longrightarrow> originConfig \<noteq> RNull \<longrightarrow>
     targetConfig \<noteq> RUndefined \<longrightarrow> targetConfig \<noteq> RNull \<longrightarrow>
     forEach_key_ref n originConfig targetConfig modifiedObj keys h = Some (res, h') \<longrightarrow>
     (\<exists>r. res = Inr r)"
proof (induction n originConfig targetConfig h and n originConfig targetConfig modifiedObj keys h
    rule: mergeConfig_ref_forEach_key_ref.induct)
  case (1 originConfig targetConfig h)
  show ?case by simp
next
  case (2 n originConfig targetConfig h)
  from "2.IH" [OF refl refl] show ?case
    by (auto simp: Let_def split: option.splits sum.splits)
next
  case (3 n originConfig targetConfig modifiedObj h)
  show ?case by simp
next
  case (4 n originConfig targetConfig modifiedObj key keys h)
  show ?case
  proof (intro allI impI)
    fix res h'
    assume defined: "originConfig \<noteq> RUndefined" "originConfig \<noteq> RNull"
      "targetConfig \<noteq> RUndefined" "targetConfig \<noteq> RNull"
      and call: "forEach_key_ref n originConfig targetConfig modifiedObj (key # keys) h =
        Some (res, h')"
    from get_prop_ref_defined [OF defined(1,2)] obtain ov
      where ov: "get_prop_ref h originConfig key = Inr ov" by blast
    from get_prop_ref_defined [OF defined(3,4)] obtain tv
      where tv: "get_prop_ref h targetConfig key = Inr tv" by blast
    show "\<exists>r. res = Inr r"
    proof (cases "truthy_ref ov")
      case False
      with ov call defined "4.IH"(1) [OF ov] show ?thesis by simp
    next
      case True
      show ?thesis
      proof (cases "truthy_ref tv \<and> typeof_object_ref tv \<and> \<not> isArray_ref h tv")
        case False
        with True ov tv call defined "4.IH"(4) [OF ov _ tv] show ?thesis by auto
      next
        case merge: True
        show ?thesis
        proof (cases "mergeConfig_ref n ov tv h")
          case None
          with True merge ov tv call show ?thesis by simp
        next
          case (Some result)
          obtain res1 h1 where result: "result = (res1, h1)" by (cases result)
          from "4.IH"(2) [OF ov _ tv] True merge truthy_ref_defined Some result
          obtain merged where merged: "res1 = Inr merged" by blast
          from True merge ov tv call Some result merged
          have "forEach_key_ref n originConfig targetConfig modifiedObj keys
              (write_prop h1 modifiedObj key merged) = Some (res, h')" by simp
          with "4.IH"(3) [OF ov _ tv _ Some [unfolded result merged] refl] True merge defined
          show ?thesis by blast
        qed
      qed
    qed
  qed
qed

text \<open>The store of \<^verbatim>\<open>mergeConfig({a: {x: 1, y: 2}}, {a: {y: 3}})\<close>: the origin is at
  address 0, the target at address 2.\<close>

definition example_heap :: heap where
  "example_heap =
     [HRecord [(''a'', RRef 1)], HRecord [(''x'', RNum 1), (''y'', RNum 2)],
      HRecord [(''a'', RRef 3)], HRecord [(''y'', RNum 3)]]"

text \<open>
  C10. A call of \<^verbatim>\<open>mergeConfig\<close> changes no object that the store held before the call:
  the store after the call is the store before it, followed by the objects the call
  allocated. When the call returns a value, the value is the address of a record
  allocated by the call. Whatever tree the origin or the target stands for before the
  call, it stands for the same tree after it. And the call does return a new record,
  for an origin and a target that are neither null nor undefined, when the target
  stands for a tree in the store (the recursion follows the target) and the depth
  bound exceeds the depth of that tree.
\<close>

theorem mergeConfig_does_not_mutate:
  "(\<forall>res h'. mergeConfig_ref n originConfig targetConfig h = Some (res, h') \<longrightarrow>
      take (length h) h' = h \<and>
      (\<forall>r. res = Inr r \<longrightarrow>
         r = RRef (length h) \<and> length h < length h' \<and> (\<exists>kvs. h' ! length h = HRecord kvs)) \<and>
      (\<forall>k tree. reify k h originConfig = Some tree \<longrightarrow> reify k h' originConfig = Some tree) \<and>
      (\<forall>k tree. reify k h targetConfig = Some tree \<longrightarrow> reify k h' targetConfig = Some tree)) \<and>
   (\<forall>k tree. reify k h targetConfig = Some tree \<longrightarrow>
      originConfig \<noteq> RUndefined \<longrightarrow> originConfig \<noteq> RNull \<longrightarrow>
      targetConfig \<noteq> RUndefined \<longrightarrow> targetConfig \<noteq> RNull \<longrightarrow>
      (\<exists>h'. mergeConfig_ref (Suc k) originConfig targetConfig h =
         Some (Inr (RRef (length h)), h')))"
proof (intro conjI allI impI)
  fix res h'
  assume call: "mergeConfig_ref n originConfig targetConfig h = Some (res, h')"
  from mergeConfig_ref_frame(1) [of n originConfig targetConfig h] call
  show keep: "take (length h) h' = h" by blast
  {
    fix r
    assume "res = Inr r"
    with mergeConfig_ref_frame(1) [of n originConfig targetConfig h] call
    show "r = RRef (length h)" and "length h < length h'" and "\<exists>kvs. h' ! length h = HRecord kvs"
      by blast+
  }
  {
    fix k tree
    assume "reify k h originConfig = Some tree"
    then show "reify k h' originConfig = Some tree" using keep by (rule reify_extend)
  }
  {
    fix k tree
    assume "reify k h targetConfig = Some tree"
    then show "reify k h' targetConfig = Some tree" using keep by (rule reify_extend)
  }
next
  fix k tree
  assume tree: "reify k h targetConfig = Some tree"
    and defined: "originConfig \<noteq> RUndefined" "originConfig \<noteq> RNull"
      "targetConfig \<noteq> RUndefined" "targetConfig \<noteq> RNull"
  from mergeConfig_ref_returns(1) [of "Suc k" h targetConfig h originConfig] tree
  obtain res h' where call: "mergeConfig_ref (Suc k) originConfig targetConfig h = Some (res, h')"
    by auto
  from mergeConfig_ref_no_exception(1) [of originConfig targetConfig "Suc k" h] defined call
  obtain r where "res = Inr r" by blast
  moreover from this mergeConfig_ref_frame(1) [of "Suc k" originConfig targetConfig h] call
  have "r = RRef (length h)" by blast
  ultimately show "\<exists>h'. mergeConfig_ref (Suc k) originConfig targetConfig h =
      Some (Inr (RRef (length h)), h')" using call by blast
qed

theorem mergeConfig_does_not_mutate_witness:
  "mergeConfig_ref (Suc (Suc 0)) (RRef 0) (RRef 2) example_heap =
     Some (Inr (RRef 4),
       example_heap @
       [HRecord [(''a'', RRef 5)], HRecord [(''x'', RNum 1), (''y'', RNum 3)]]) \<and>
   reify (Suc (Suc 0)) example_heap (RRef 2) = Some (JObj [(''a'', JObj [(''y'', JNum 3)])]) \<and>
   reify (Suc (Suc 0))
     (example_heap @ [HRecord [(''a'', RRef 5)], HRecord [(''x'', RNum 1), (''y'', RNum 3)]])
     (RRef 2) = Some (JObj [(''a'', JObj [(''y'', JNum 3)])]) \<and>
   reify (Suc (Suc 0))
     (example_heap @ [HRecord [(''a'', RRef 5)], HRecord [(''x'', RNum 1), (''y'', RNum 3)]])
     (RRef 0) = Some (JObj [(''a'', JObj [(''x'', JNum 1), (''y'', JNum 2)])]) \<and>
   reify (Suc (Suc 0))
     (example_heap @ [HRecord [(''a'', RRef 5)], HRecord [(''x'', RNum 1), (''y'', RNum 3)]])
     (RRef 4) = Some (JObj [(''a'', JObj [(''x'', JNum 1), (''y'', JNum 3)])])"
  using mergeConfig_does_not_mutate [of "Suc (Suc 0)" "RRef 0" "RRef 2" example_heap]
  by (simp add: example_heap_def assign_def set_prop_def lookup_ref_def write_prop_def
      nth_append Let_def)

end
